theory Spec2Isabelle
  imports Complex_Main
begin

section \<open>Strings of the platform\<close>

text \<open>
  Strings are lists of 8-bit characters, read as the code units U+0000 to U+00FF of an
  ECMAScript string. On these, \<open>toLowerCase\<close> maps \<open>A..Z\<close> to \<open>a..z\<close> and the capital
  letters U+00C0 to U+00DE (without the multiplication sign U+00D7) to the letters 32
  places on, and leaves every other unit alone; the white space of \<open>\s\<close> and of \<open>trim\<close>
  is tab, line feed, vertical tab, form feed, carriage return, space and the no-break
  space U+00A0. Numbers that count things are integers. An overlap score is the exact
  quotient the code divides out; the double that holds it is \<open>to_double\<close> of it, defined
  with the verifier.
\<close>

definition upper_units :: string where
  "upper_units =
     ''ABCDEFGHIJKLMNOPQRSTUVWXYZ'' @
     [CHR 0xC0, CHR 0xC1, CHR 0xC2, CHR 0xC3, CHR 0xC4, CHR 0xC5, CHR 0xC6, CHR 0xC7,
      CHR 0xC8, CHR 0xC9, CHR 0xCA, CHR 0xCB, CHR 0xCC, CHR 0xCD, CHR 0xCE, CHR 0xCF,
      CHR 0xD0, CHR 0xD1, CHR 0xD2, CHR 0xD3, CHR 0xD4, CHR 0xD5, CHR 0xD6,
      CHR 0xD8, CHR 0xD9, CHR 0xDA, CHR 0xDB, CHR 0xDC, CHR 0xDD, CHR 0xDE]"

definition lower_units :: string where
  "lower_units =
     ''abcdefghijklmnopqrstuvwxyz'' @
     [CHR 0xE0, CHR 0xE1, CHR 0xE2, CHR 0xE3, CHR 0xE4, CHR 0xE5, CHR 0xE6, CHR 0xE7,
      CHR 0xE8, CHR 0xE9, CHR 0xEA, CHR 0xEB, CHR 0xEC, CHR 0xED, CHR 0xEE, CHR 0xEF,
      CHR 0xF0, CHR 0xF1, CHR 0xF2, CHR 0xF3, CHR 0xF4, CHR 0xF5, CHR 0xF6,
      CHR 0xF8, CHR 0xF9, CHR 0xFA, CHR 0xFB, CHR 0xFC, CHR 0xFD, CHR 0xFE]"

definition toLowerChar :: "char \<Rightarrow> char" where
  "toLowerChar c =
     (case map_of (zip upper_units lower_units) c of
        Some d \<Rightarrow> d
      | None \<Rightarrow> c)"

definition toLowerCase :: "string \<Rightarrow> string" where
  "toLowerCase s = map toLowerChar s"

definition is_space :: "char \<Rightarrow> bool" where
  "is_space c =
     (c \<in> set [CHR 0x09, CHR 0x0A, CHR 0x0B, CHR 0x0C, CHR 0x0D, CHR '' '', CHR 0xA0])"

text \<open>The character class \<open>[a-z0-9]\<close>.\<close>

definition is_lower_alnum :: "char \<Rightarrow> bool" where
  "is_lower_alnum c = (c \<in> set ''abcdefghijklmnopqrstuvwxyz0123456789'')"

definition trim :: "string \<Rightarrow> string" where
  "trim s = rev (dropWhile is_space (rev (dropWhile is_space s)))"

text \<open>
  \<open>s.split(/\s+/g)\<close>: every maximal run of white space is one separator; a separator at
  the very start or end leaves an empty first or last piece, and the empty string splits
  into one empty piece. The flag says that the scan stands inside a separator.
\<close>

fun split_ws_from :: "string \<Rightarrow> bool \<Rightarrow> string \<Rightarrow> string list" where
  "split_ws_from cur inws [] = [rev cur]"
| "split_ws_from cur inws (c # cs) =
     (if is_space c then
        (if inws then split_ws_from cur True cs else rev cur # split_ws_from [] True cs)
      else split_ws_from (c # cur) False cs)"

definition split_ws :: "string \<Rightarrow> string list" where
  "split_ws s = split_ws_from [] False s"

text \<open>\<open>s.slice(0, n)\<close> for a literal \<open>n \<ge> 0\<close>.\<close>

definition slice_to :: "nat \<Rightarrow> 'a list \<Rightarrow> 'a list" where
  "slice_to n xs = take n xs"

section \<open>Shared data (types/run.ts, agents/researcher.ts)\<close>

record Candidate =
  cand_url :: string
  reason :: string

datatype TraceEvent =
    Planner "string list"
  | Search string nat
  | Fetch string int
  | Select "Candidate list"
  | Timing int

datatype ClaimSupportLabel = Supported | Weak | Unsupported

record Evidence =
  sourceUrl :: string
  ev_snippet :: string

record ClaimRecord =
  claim_id :: string
  claim :: string
  label :: ClaimSupportLabel
  score :: rat
  evidence :: "Evidence list"

record EvidenceSource =
  url :: string
  title :: string
  domain :: string
  excerpt :: string
  body :: string
  contentHash :: string

section \<open>Verifier (agents/verifier.ts)\<close>

subsection \<open>chunkText\<close>

text \<open>
  \<open>text.split(/\n{2,}/g)\<close>: a maximal run of two or more line feeds is a separator, a
  single line feed stays inside its paragraph.
\<close>

definition is_nl :: "char \<Rightarrow> bool" where
  "is_nl c = (c = CHR 0x0A)"

fun split_paras_from :: "string \<Rightarrow> bool \<Rightarrow> string \<Rightarrow> string list" where
  "split_paras_from cur insep [] = [rev cur]"
| "split_paras_from cur insep (c # cs) =
     (if is_nl c then
        (if insep then split_paras_from cur True cs
         else (case cs of
                 [] \<Rightarrow> [rev (c # cur)]
               | d # ds \<Rightarrow>
                   if is_nl d then rev cur # split_paras_from [] True cs
                   else split_paras_from (c # cur) False cs))
      else split_paras_from (c # cur) False cs)"

definition split_paras :: "string \<Rightarrow> string list" where
  "split_paras s = split_paras_from [] False s"

text \<open>The loop body of \<open>chunkText\<close>: the state is the chunks pushed so far and \<open>buf\<close>.\<close>

definition chunk_step :: "nat \<Rightarrow> string list \<times> string \<Rightarrow> string \<Rightarrow> string list \<times> string" where
  "chunk_step maxLen st p =
     (let chunks = fst st; buf = snd st;
          nxt = (if buf \<noteq> [] then buf @ [CHR 0x0A, CHR 0x0A] @ p else p)
      in if length nxt > maxLen
         then ((if buf \<noteq> [] then chunks @ [buf] else chunks), p)
         else (chunks, nxt))"

definition chunkText :: "string \<Rightarrow> nat \<Rightarrow> string list" where
  "chunkText txt maxLen =
     (let paras = filter (\<lambda>p. p \<noteq> []) (map trim (split_paras txt));
          st = foldl (chunk_step maxLen) ([], []) paras;
          chunks = (if snd st \<noteq> [] then fst st @ [snd st] else fst st)
      in slice_to 40 chunks)"

subsection \<open>normalizeTokens, overlapScore, labelFromScore\<close>

definition replace_non_token :: "string \<Rightarrow> string" where
  "replace_non_token s = map (\<lambda>c. if is_lower_alnum c \<or> is_space c then c else CHR '' '') s"

definition normalizeTokens :: "string \<Rightarrow> string list" where
  "normalizeTokens s =
     filter (\<lambda>t. length t \<ge> 4) (split_ws (replace_non_token (toLowerCase s)))"

text \<open>The \<open>for (const w of dt) if (ct.has(w)) hit += 1\<close> loop.\<close>

fun count_hits :: "string set \<Rightarrow> string list \<Rightarrow> nat \<Rightarrow> nat" where
  "count_hits ct [] hit = hit"
| "count_hits ct (w # ws) hit = count_hits ct ws (if w \<in> ct then hit + 1 else hit)"

definition overlapScore :: "string \<Rightarrow> string \<Rightarrow> rat" where
  "overlapScore clm chunk =
     (let ct = set (normalizeTokens clm); dt = normalizeTokens chunk
      in if card ct = 0 \<or> length dt = 0 then 0
         else min 1 (of_nat (count_hits ct dt 0) / of_nat (max 8 (card ct))))"

definition labelFromScore :: "rat \<Rightarrow> ClaimSupportLabel" where
  "labelFromScore s =
     (if s \<ge> 75 / 100 then Supported else if s \<ge> 45 / 100 then Weak else Unsupported)"

subsection \<open>verifyClaims\<close>

record Scored =
  sc_sourceUrl :: string
  sc_snippet :: string
  sc_score :: rat

text \<open>The inner loop over the chunks of one source: \<open>best\<close> is a snippet and a score.\<close>

definition best_step :: "string \<Rightarrow> string \<times> rat \<Rightarrow> string \<Rightarrow> string \<times> rat" where
  "best_step clm best chunk =
     (let s = overlapScore clm chunk
      in if s > snd best then (slice_to 280 chunk, s) else best)"

definition best_of :: "string \<Rightarrow> string list \<Rightarrow> string \<times> rat" where
  "best_of clm chunks = foldl (best_step clm) ([], 0) chunks"

definition evidenceScored :: "string \<Rightarrow> (string \<times> string list) list \<Rightarrow> Scored list" where
  "evidenceScored clm sourceChunks =
     concat (map (\<lambda>(u, chunks).
        (let best = best_of clm chunks
         in if snd best > 0
            then [\<lparr>sc_sourceUrl = u, sc_snippet = fst best, sc_score = snd best\<rparr>]
            else [])) sourceChunks)"

text \<open>
  \<open>evidenceScored.sort((a, b) => b.score - a.score)\<close> is a stable sort by falling score;
  \<open>sort_key\<close> is a stable insertion sort by rising key.
\<close>

definition sort_desc :: "Scored list \<Rightarrow> Scored list" where
  "sort_desc es = sort_key (\<lambda>e. - sc_score e) es"

definition top_evidence :: "string \<Rightarrow> EvidenceSource list \<Rightarrow> Scored list" where
  "top_evidence clm sources =
     (let sourceChunks = map (\<lambda>s. (url s, chunkText (body s) 900)) sources
      in slice_to 3 (sort_desc (evidenceScored clm sourceChunks)))"

definition maxScore :: "string \<Rightarrow> EvidenceSource list \<Rightarrow> rat" where
  "maxScore clm sources =
     (case top_evidence clm sources of [] \<Rightarrow> 0 | e # _ \<Rightarrow> sc_score e)"

text \<open>
  The double nearest to a quotient \<open>x\<close> in \<open>(0, 1]\<close>, as the division leaves it (53
  significant bits, a tie going to the even neighbour). \<open>halvings x\<close> is the \<open>k\<close> with
  \<open>1 \<le> x * 2^k < 2\<close>; the double is a whole multiple of \<open>2^-(k + 52)\<close>. Hit counts and set
  sizes stay far below \<open>2^53\<close> and scores never leave \<open>[0, 1]\<close>, so neither operand of the
  division is rounded and no exponent is out of range.
\<close>

function halvings :: "rat \<Rightarrow> nat" where
  "halvings x = (if x \<le> 0 \<or> 1 \<le> x then 0 else Suc (halvings (2 * x)))"
  by pat_completeness auto
termination
proof (relation "measure (\<lambda>x. nat \<lceil>1 / x\<rceil>)")
  show "wf (measure (\<lambda>x. nat \<lceil>1 / x\<rceil>))" by simp
next
  fix x :: rat
  assume a: "\<not> (x \<le> 0 \<or> 1 \<le> x)"
  then have x: "0 < x" "x < 1" by auto
  have one: "1 < 1 / x" using x by simp
  have c: "\<lceil>1 / x\<rceil> \<ge> 2" using one by (simp add: le_ceiling_iff)
  have "1 / (2 * x) \<le> of_int \<lceil>1 / x\<rceil> / 2"
    using x by (simp add: field_simps)
  also have "\<dots> \<le> of_int (\<lceil>1 / x\<rceil> - 1)"
    using c by simp
  finally have "\<lceil>1 / (2 * x)\<rceil> \<le> \<lceil>1 / x\<rceil> - 1"
    by (rule ceiling_le_iff [THEN iffD2])
  then show "(2 * x, x) \<in> measure (\<lambda>x. nat \<lceil>1 / x\<rceil>)"
    using c x by simp
qed

declare halvings.simps [simp del]

definition round_half_even :: "rat \<Rightarrow> int" where
  "round_half_even q =
     (let n = \<lfloor>q\<rfloor>; r = q - of_int n
      in if r < 1 / 2 then n
         else if 1 / 2 < r then n + 1
         else if even n then n else n + 1)"

definition to_double :: "rat \<Rightarrow> rat" where
  "to_double x =
     (if x \<le> 0 then 0
      else of_int (round_half_even (x * 2 ^ (halvings x + 52))) / 2 ^ (halvings x + 52))"

text \<open>
  \<open>Number(x.toFixed(2))\<close>: \<open>toFixed\<close> takes the integer \<open>n\<close> for which \<open>n / 100\<close> is nearest
  to the exact value of the double \<open>x\<close>, the larger one of two; \<open>Number\<close> reads the double
  nearest to \<open>n / 100\<close>, written \<open>n / 100\<close> here.
\<close>

definition toFixed2 :: "rat \<Rightarrow> rat" where
  "toFixed2 x = of_int \<lfloor>to_double x * 100 + 1 / 2\<rfloor> / 100"

definition verifyClaim :: "string \<Rightarrow> string \<Rightarrow> EvidenceSource list \<Rightarrow> ClaimRecord" where
  "verifyClaim cid clm sources =
     \<lparr>claim_id = cid, claim = clm,
      label = labelFromScore (maxScore clm sources),
      score = toFixed2 (maxScore clm sources),
      evidence = map (\<lambda>e. \<lparr>sourceUrl = sc_sourceUrl e, ev_snippet = sc_snippet e\<rparr>)
                     (top_evidence clm sources)\<rparr>"

text \<open>
  \<open>createId\<close> draws a fresh identifier for each record; \<open>createId k\<close> is the one drawn for
  the claim at position \<open>k\<close>.
\<close>

definition verifyClaims ::
  "(nat \<Rightarrow> string) \<Rightarrow> string list \<Rightarrow> EvidenceSource list \<Rightarrow> ClaimRecord list" where
  "verifyClaims createId claims sources =
     map (\<lambda>(k, clm). verifyClaim (createId k) clm sources) (enumerate 0 claims)"


text \<open>
  The claim's reading of the score, from the spec's words: the size of the intersection of
  the set of chunk tokens with the set of claim tokens, over \<open>max(8, |claim tokens|)\<close>,
  clamped to 1.
\<close>

definition overlap_distinct :: "string \<Rightarrow> string \<Rightarrow> rat" where
  "overlap_distinct clm chunk =
     min 1 (of_nat (card (set (normalizeTokens chunk) \<inter> set (normalizeTokens clm)))
            / of_nat (max 8 (card (set (normalizeTokens clm)))))"

text \<open>
  Tokens read off the text directly: the maximal runs of characters of \<open>[a-z0-9]\<close>.
\<close>

function alnum_runs :: "string \<Rightarrow> string list" where
  "alnum_runs [] = []"
| "alnum_runs (c # cs) =
     (if is_lower_alnum c
      then takeWhile is_lower_alnum (c # cs) # alnum_runs (dropWhile is_lower_alnum cs)
      else alnum_runs cs)"
  by pat_completeness auto
termination
  by (relation "measure length") (auto simp: less_Suc_eq_le length_dropWhile_le)

text \<open>
  The best overlap of one source over its chunks, and the largest of these over all
  sources; both are 0 when there is nothing to compare.
\<close>

definition best_overlap :: "string \<Rightarrow> EvidenceSource \<Rightarrow> rat" where
  "best_overlap clm s = Max (insert 0 (overlapScore clm ` set (chunkText (body s) 900)))"

definition max_best_overlap :: "string \<Rightarrow> EvidenceSource list \<Rightarrow> rat" where
  "max_best_overlap clm sources = Max (insert 0 (best_overlap clm ` set sources))"

section \<open>Researcher (agents/researcher.ts)\<close>

datatype error = Error string | SyntaxError | ZodError | TypeError

datatype 'a outcome = Returns 'a | Throws error | Pending

record SearchResult =
  sr_title :: string
  link :: string
  snippet :: string

record ResearchOptions =
  budgetMs :: int
  perIntentUrls :: int
  concurrency :: int
  maxSources :: int
  minSources :: int

record FetchResult =
  fr_url :: string
  status :: int
  contentType :: string
  html :: string

record ExtractedDoc =
  doc_title :: string
  doc_text :: string
  doc_excerpt :: string
  doc_contentHash :: string

subsection \<open>domainOf and selectUrls\<close>

text \<open>
  \<open>new URL(u).hostname\<close> belongs to the platform: \<open>hostname u\<close> is its value, \<open>None\<close> when
  the constructor throws. \<open>.replace(/^www\./, "")\<close> drops one leading \<open>www.\<close>.
\<close>

definition strip_www :: "string \<Rightarrow> string" where
  "strip_www h = (if take 4 h = ''www.'' then drop 4 h else h)"

definition domainOf :: "(string \<Rightarrow> string option) \<Rightarrow> string \<Rightarrow> string option" where
  "domainOf hostname u = map_option strip_www (hostname u)"

definition select_reason :: string where
  "select_reason = ''Top-ranked unique domain with informative snippet.''"

fun selectUrls_loop ::
  "(string \<Rightarrow> string option) \<Rightarrow> int \<Rightarrow> SearchResult list \<Rightarrow> string set \<Rightarrow>
     Candidate list \<Rightarrow> Candidate list" where
  "selectUrls_loop hostname mx [] seenDomains selected = selected"
| "selectUrls_loop hostname mx (r # rs) seenDomains selected =
     (case domainOf hostname (link r) of
        None \<Rightarrow> selectUrls_loop hostname mx rs seenDomains selected
      | Some d \<Rightarrow>
          if d \<in> seenDomains then selectUrls_loop hostname mx rs seenDomains selected
          else if snippet r = [] \<or> length (snippet r) < 30
          then selectUrls_loop hostname mx rs seenDomains selected
          else (let selected' = selected @ [\<lparr>cand_url = link r, reason = select_reason\<rparr>]
                in if int (length selected') \<ge> mx then selected'
                   else selectUrls_loop hostname mx rs (insert d seenDomains) selected'))"

definition selectUrls ::
  "(string \<Rightarrow> string option) \<Rightarrow> SearchResult list \<Rightarrow> int \<Rightarrow> Candidate list" where
  "selectUrls hostname results mx = selectUrls_loop hostname mx results {} []"

subsection \<open>The fetch phase of research\<close>

text \<open>
  The workers are asynchronous functions on one thread: each runs without interruption
  from one \<open>await\<close> to the next. A worker is about to enter its loop, waits for
  \<open>fetchHtml\<close>, waits for \<open>extractReadable\<close>, or has returned.
\<close>

datatype wstate = Ready | Fetching Candidate | Extracting Candidate | Finished

text \<open>
  What the environment does: it lets worker \<open>w\<close> start, or completes the call worker \<open>w\<close>
  waits for. Each event carries the reading of the clock (\<open>nowMs()\<close>) during the
  uninterrupted run it triggers; \<open>ExtractDone w t None\<close> is \<open>extractReadable\<close> throwing.
\<close>

datatype event =
    Go nat int
  | FetchDone nat int FetchResult
  | ExtractDone nat int "ExtractedDoc option"

record pool =
  idx :: nat
  sources :: "EvidenceSource list"
  trace :: "TraceEvent list"
  workers :: "wstate list"

definition enoughEvidence :: "ResearchOptions \<Rightarrow> EvidenceSource list \<Rightarrow> bool" where
  "enoughEvidence opts srcs =
     (if int (length srcs) \<ge> maxSources opts then True
      else (let totalChars = foldl (\<lambda>a s. a + length (body s)) 0 srcs
            in int (length srcs) \<ge> minSources opts \<and> totalChars \<ge> 2500))"

definition finish :: "nat \<Rightarrow> pool \<Rightarrow> pool" where
  "finish w s = s\<lparr>workers := (workers s)[w := Finished]\<rparr>"

text \<open>The head of the \<open>while\<close> loop of worker \<open>w\<close>, up to the call of \<open>fetchHtml\<close>.\<close>

definition loopHead ::
  "Candidate list \<Rightarrow> ResearchOptions \<Rightarrow> int \<Rightarrow> int \<Rightarrow> nat \<Rightarrow> pool \<Rightarrow> pool" where
  "loopHead tasks opts deadline now w s =
     (if idx s < length tasks then
        (if now > deadline then finish w s
         else if enoughEvidence opts (sources s) then finish w s
         else s\<lparr>idx := idx s + 1, workers := (workers s)[w := Fetching (tasks ! idx s)]\<rparr>)
      else finish w s)"

fun str_includes :: "string \<Rightarrow> string \<Rightarrow> bool" where
  "str_includes [] sub = (sub = [])"
| "str_includes (c # cs) sub = (take (length sub) (c # cs) = sub \<or> str_includes cs sub)"

text \<open>From the return of \<open>fetchHtml\<close> to the call of \<open>extractReadable\<close>.\<close>

definition afterFetch ::
  "Candidate list \<Rightarrow> ResearchOptions \<Rightarrow> int \<Rightarrow> int \<Rightarrow> nat \<Rightarrow> Candidate \<Rightarrow> FetchResult \<Rightarrow>
     pool \<Rightarrow> pool" where
  "afterFetch tasks opts deadline now w cur page s =
     (let s1 = s\<lparr>trace := trace s @ [Fetch (cand_url cur) (status page)]\<rparr>
      in if now > deadline then finish w s1
         else if status page < 200 \<or> status page \<ge> 300 then loopHead tasks opts deadline now w s1
         else if \<not> str_includes (toLowerCase (contentType page)) ''text/html''
         then loopHead tasks opts deadline now w s1
         else if html page = [] then loopHead tasks opts deadline now w s1
         else s1\<lparr>workers := (workers s1)[w := Extracting cur]\<rparr>)"

text \<open>The record pushed to \<open>sources\<close> for the task \<open>cur\<close>, its domain and its document.\<close>

definition evidence_of :: "Candidate \<Rightarrow> string \<Rightarrow> ExtractedDoc \<Rightarrow> EvidenceSource" where
  "evidence_of cur d doc =
     \<lparr>url = cand_url cur, title = doc_title doc, domain = d, excerpt = doc_excerpt doc,
      body = doc_text doc, contentHash = doc_contentHash doc\<rparr>"

text \<open>From the return (or throw) of \<open>extractReadable\<close> to the next \<open>await\<close> or return.\<close>

definition afterExtract ::
  "(string \<Rightarrow> string option) \<Rightarrow> Candidate list \<Rightarrow> ResearchOptions \<Rightarrow> int \<Rightarrow> int \<Rightarrow> nat \<Rightarrow>
     Candidate \<Rightarrow> ExtractedDoc option \<Rightarrow> pool \<Rightarrow> pool" where
  "afterExtract hostname tasks opts deadline now w cur res s =
     (case res of
        None \<Rightarrow> loopHead tasks opts deadline now w s
      | Some doc \<Rightarrow>
          if doc_text doc = [] \<or> length (doc_text doc) < 300
          then loopHead tasks opts deadline now w s
          else (case domainOf hostname (cand_url cur) of
                  None \<Rightarrow> loopHead tasks opts deadline now w s
                | Some d \<Rightarrow>
                    loopHead tasks opts deadline now w
                      (s\<lparr>sources := sources s @ [evidence_of cur d doc]\<rparr>)))"

definition worker_at :: "pool \<Rightarrow> nat \<Rightarrow> wstate" where
  "worker_at s w = (if w < length (workers s) then workers s ! w else Finished)"

text \<open>One event. An event that no worker waits for changes nothing.\<close>

definition step ::
  "(string \<Rightarrow> string option) \<Rightarrow> Candidate list \<Rightarrow> ResearchOptions \<Rightarrow> int \<Rightarrow> pool \<Rightarrow> event \<Rightarrow>
     pool" where
  "step hostname tasks opts deadline s ev =
     (case ev of
        Go w now \<Rightarrow>
          (case worker_at s w of
             Ready \<Rightarrow> loopHead tasks opts deadline now w s
           | _ \<Rightarrow> s)
      | FetchDone w now page \<Rightarrow>
          (case worker_at s w of
             Fetching cur \<Rightarrow> afterFetch tasks opts deadline now w cur page s
           | _ \<Rightarrow> s)
      | ExtractDone w now res \<Rightarrow>
          (case worker_at s w of
             Extracting cur \<Rightarrow> afterExtract hostname tasks opts deadline now w cur res s
           | _ \<Rightarrow> s))"

fun event_time :: "event \<Rightarrow> int" where
  "event_time (Go w now) = now"
| "event_time (FetchDone w now page) = now"
| "event_time (ExtractDone w now res) = now"

subsection \<open>research\<close>

text \<open>
  The environment of one call: the search capability (it may throw), the platform's
  \<open>hostname\<close>, the clock at the start and at the end, and the events of the fetch phase
  in the order they happen.
\<close>

record Env =
  webSearch :: "string \<Rightarrow> nat \<Rightarrow> error + SearchResult list"
  hostname_of :: "string \<Rightarrow> string option"
  t_start :: int
  schedule :: "event list"
  t_end :: int

record ResearchResult =
  res_trace :: "TraceEvent list"
  res_sources :: "EvidenceSource list"

text \<open>The \<open>for (const q of intents)\<close> loop: it ends with the trace and the tasks.\<close>

fun select_phase ::
  "Env \<Rightarrow> ResearchOptions \<Rightarrow> string list \<Rightarrow> TraceEvent list \<Rightarrow> Candidate list \<Rightarrow>
     error + TraceEvent list \<times> Candidate list" where
  "select_phase env opts [] tr tasks = Inr (tr, tasks)"
| "select_phase env opts (q # qs) tr tasks =
     (case webSearch env q 6 of
        Inl e \<Rightarrow> Inl e
      | Inr results \<Rightarrow>
          (let selected = selectUrls (hostname_of env) results (perIntentUrls opts)
           in select_phase env opts qs
                (tr @ [Search q (length results), Select selected]) (tasks @ selected)))"

text \<open>The \<open>sources.filter\<close> with the set \<open>seen\<close>.\<close>

fun dedup_loop :: "string set \<Rightarrow> EvidenceSource list \<Rightarrow> EvidenceSource list" where
  "dedup_loop seen [] = []"
| "dedup_loop seen (s # ss) =
     (if contentHash s \<in> seen then dedup_loop seen ss
      else s # dedup_loop (insert (contentHash s) seen) ss)"

text \<open>
  \<open>xs.slice(0, e)\<close> for an integer \<open>e\<close>: a negative \<open>e\<close> counts from the end of the list.
\<close>

definition slice0 :: "'a list \<Rightarrow> int \<Rightarrow> 'a list" where
  "slice0 xs e = (if e < 0 then take (nat (int (length xs) + e)) xs else take (nat e) xs)"

text \<open>
  The pool when \<open>Promise.all\<close> is awaited: \<open>min(concurrency, tasks.length)\<close> workers, all
  yet to start, then the events.
\<close>

definition fetch_phase ::
  "Env \<Rightarrow> ResearchOptions \<Rightarrow> TraceEvent list \<Rightarrow> Candidate list \<Rightarrow> pool" where
  "fetch_phase env opts tr tasks =
     foldl (step (hostname_of env) tasks opts (t_start env + budgetMs opts))
       \<lparr>idx = 0, sources = [], trace = tr,
        workers = replicate (nat (min (concurrency opts) (int (length tasks)))) Ready\<rparr>
       (schedule env)"

text \<open>
  \<open>research\<close> returns when every worker has returned; while one still waits, the promise
  is pending.
\<close>

definition research :: "Env \<Rightarrow> string list \<Rightarrow> ResearchOptions \<Rightarrow> ResearchResult outcome" where
  "research env intents opts =
     (case select_phase env opts intents [] [] of
        Inl e \<Rightarrow> Throws e
      | Inr (tr, tasks) \<Rightarrow>
          (let s = fetch_phase env opts tr tasks
           in if list_all (\<lambda>w. w = Finished) (workers s)
              then Returns \<lparr>res_trace = trace s @ [Timing (t_end env - t_start env)],
                            res_sources = slice0 (dedup_loop {} (sources s)) (maxSources opts)\<rparr>
              else Pending))"

text \<open>
  Keeping the first occurrence of every content hash, read off the list: the element at
  position \<open>i\<close> stays when no earlier element has its hash.
\<close>

definition first_by_hash :: "EvidenceSource list \<Rightarrow> EvidenceSource list" where
  "first_by_hash xs =
     map (\<lambda>i. xs ! i)
       (filter (\<lambda>i. contentHash (xs ! i) \<notin> contentHash ` set (take i xs)) [0..<length xs])"

section \<open>Generation capability (llm/ollama.ts, llm/openrouter.ts, llm/jsonSchema.ts)\<close>

subsection \<open>JSON values and safeJsonParse\<close>

text \<open>
  A JSON value as \<open>JSON.parse\<close> returns it; a number keeps its lexeme. \<open>JSON.parse\<close> itself
  belongs to the platform: the functions below take it as \<open>JSON_parse\<close>, \<open>None\<close> where it
  throws a \<open>SyntaxError\<close>.
\<close>

datatype json =
    JNull
  | JBool bool
  | JNum string
  | JStr string
  | JArr "json list"
  | JObj "(string \<times> json) list"

fun indexOf_from :: "nat \<Rightarrow> string \<Rightarrow> char \<Rightarrow> int" where
  "indexOf_from i [] c = - 1"
| "indexOf_from i (x # xs) c = (if x = c then int i else indexOf_from (i + 1) xs c)"

definition indexOf :: "string \<Rightarrow> char \<Rightarrow> int" where
  "indexOf t c = indexOf_from 0 t c"

definition lastIndexOf :: "string \<Rightarrow> char \<Rightarrow> int" where
  "lastIndexOf t c =
     (let r = indexOf_from 0 (rev t) c in if r = - 1 then - 1 else int (length t) - 1 - r)"

text \<open>\<open>t.slice(a, b)\<close> for \<open>0 \<le> a\<close> and \<open>0 \<le> b\<close>.\<close>

definition slice :: "string \<Rightarrow> int \<Rightarrow> int \<Rightarrow> string" where
  "slice t a b = take (nat (b - a)) (drop (nat a) t)"

definition safeJsonParse :: "(string \<Rightarrow> json option) \<Rightarrow> string \<Rightarrow> error + json" where
  "safeJsonParse JSON_parse txt =
     (let t = trim txt
      in case JSON_parse t of
           Some v \<Rightarrow> Inr v
         | None \<Rightarrow>
             (let firstObj = indexOf t CHR ''{'';
                  firstArr = indexOf t CHR ''['';
                  start = (if firstObj = - 1 then firstArr
                           else if firstArr = - 1 then firstObj
                           else min firstObj firstArr)
              in if start = - 1 then Inl (Error ''Model did not return JSON.'')
                 else (let endObj = lastIndexOf t CHR ''}'';
                           endArr = lastIndexOf t CHR '']'';
                           end_ix = max endObj endArr
                       in if end_ix \<le> start then Inl (Error ''Model returned malformed JSON.'')
                          else (case JSON_parse (slice t start (end_ix + 1)) of
                                  Some v \<Rightarrow> Inr v
                                | None \<Rightarrow> Inl SyntaxError))))"

text \<open>
  The spec's words: the first balanced \<open>{...}\<close> or \<open>[...]\<close> substring. \<open>balanced_from\<close> reads
  from an opening bracket to the bracket that closes it, with the stack of the brackets
  still open; \<open>first_balanced\<close> is the first substring so found.
\<close>

definition is_open :: "char \<Rightarrow> bool" where
  "is_open c = (c = CHR ''{'' \<or> c = CHR ''['')"

definition is_close :: "char \<Rightarrow> bool" where
  "is_close c = (c = CHR ''}'' \<or> c = CHR '']'')"

definition closer_of :: "char \<Rightarrow> char" where
  "closer_of c = (if c = CHR ''{'' then CHR ''}'' else CHR '']'')"

fun balanced_from :: "string \<Rightarrow> char list \<Rightarrow> string \<Rightarrow> string option" where
  "balanced_from [] stack acc = None"
| "balanced_from (c # cs) stack acc =
     (if is_open c then balanced_from cs (closer_of c # stack) (c # acc)
      else if is_close c then
        (case stack of
           [] \<Rightarrow> None
         | d # ds \<Rightarrow>
             if c = d then (if ds = [] then Some (rev (c # acc)) else balanced_from cs ds (c # acc))
             else None)
      else balanced_from cs stack (c # acc))"

fun first_balanced :: "string \<Rightarrow> string option" where
  "first_balanced [] = None"
| "first_balanced (c # cs) =
     (if is_open c then
        (case balanced_from (c # cs) [] [] of
           Some b \<Rightarrow> Some b
         | None \<Rightarrow> first_balanced cs)
      else first_balanced cs)"

definition safeJsonParse_balanced :: "(string \<Rightarrow> json option) \<Rightarrow> string \<Rightarrow> error + json" where
  "safeJsonParse_balanced JSON_parse txt =
     (let t = trim txt
      in case JSON_parse t of
           Some v \<Rightarrow> Inr v
         | None \<Rightarrow>
             (case first_balanced t of
                None \<Rightarrow> Inl (Error ''Model did not return JSON.'')
              | Some b \<Rightarrow>
                  (case JSON_parse b of
                     Some v \<Rightarrow> Inr v
                   | None \<Rightarrow> Inl SyntaxError)))"

text \<open>
  What the code extracts, read off the text: from the first opening bracket to the last
  closing bracket that follows it.
\<close>

definition from_first_open :: "string \<Rightarrow> string" where
  "from_first_open t = dropWhile (\<lambda>c. \<not> is_open c) t"

definition to_last_close :: "string \<Rightarrow> string" where
  "to_last_close u = rev (dropWhile (\<lambda>c. \<not> is_close c) (rev u))"

subsection \<open>A reader for JSON text\<close>

text \<open>
  A reader for the JSON grammar, to stand for \<open>JSON.parse\<close> at concrete texts. The fuel
  bounds the nesting; a \<open>\u\<close> escape is checked and kept as written.
\<close>

definition is_json_ws :: "char \<Rightarrow> bool" where
  "is_json_ws c = (c \<in> set [CHR '' '', CHR 0x09, CHR 0x0A, CHR 0x0D])"

definition skip_ws :: "string \<Rightarrow> string" where
  "skip_ws s = dropWhile is_json_ws s"

definition is_digit :: "char \<Rightarrow> bool" where
  "is_digit c = (c \<in> set ''0123456789'')"

definition is_hex :: "char \<Rightarrow> bool" where
  "is_hex c = (c \<in> set ''0123456789abcdefABCDEF'')"

definition read_frac :: "string \<Rightarrow> (string \<times> string) option" where
  "read_frac s =
     (case s of
        [] \<Rightarrow> Some ([], s)
      | c # r \<Rightarrow>
          if c = CHR ''.'' then
            (let d = takeWhile is_digit r
             in if d = [] then None else Some (c # d, dropWhile is_digit r))
          else Some ([], s))"

definition read_exp :: "string \<Rightarrow> (string \<times> string) option" where
  "read_exp s =
     (case s of
        [] \<Rightarrow> Some ([], s)
      | c # r \<Rightarrow>
          if c = CHR ''e'' \<or> c = CHR ''E'' then
            (let sg = (case r of
                         [] \<Rightarrow> []
                       | x # y \<Rightarrow> if x = CHR ''+'' \<or> x = CHR ''-'' then [x] else []);
                 r' = drop (length sg) r;
                 d = takeWhile is_digit r'
             in if d = [] then None else Some (c # sg @ d, dropWhile is_digit r'))
          else Some ([], s))"

definition read_number :: "string \<Rightarrow> (string \<times> string) option" where
  "read_number s =
     (let sg = (case s of [] \<Rightarrow> [] | c # r \<Rightarrow> if c = CHR ''-'' then [c] else []);
          s1 = drop (length sg) s;
          ip = takeWhile is_digit s1
      in if ip = [] \<or> (length ip > 1 \<and> hd ip = CHR ''0'') then None
         else (case read_frac (dropWhile is_digit s1) of
                 None \<Rightarrow> None
               | Some (fr, s2) \<Rightarrow>
                   (case read_exp s2 of
                      None \<Rightarrow> None
                    | Some (ex, s3) \<Rightarrow> Some (sg @ ip @ fr @ ex, s3))))"

definition unescape :: "char \<Rightarrow> char option" where
  "unescape e =
     map_of [(CHR 0x22, CHR 0x22), (CHR 0x5C, CHR 0x5C), (CHR ''/'', CHR ''/''),
             (CHR ''b'', CHR 0x08), (CHR ''f'', CHR 0x0C), (CHR ''n'', CHR 0x0A),
             (CHR ''r'', CHR 0x0D), (CHR ''t'', CHR 0x09)] e"

fun read_string_body :: "string \<Rightarrow> string \<Rightarrow> (string \<times> string) option" where
  "read_string_body [] acc = None"
| "read_string_body (c # cs) acc =
     (if c = CHR 0x22 then Some (rev acc, cs)
      else if c = CHR 0x5C then
        (case cs of
           [] \<Rightarrow> None
         | e # r \<Rightarrow>
             (case unescape e of
                Some d \<Rightarrow> read_string_body r (d # acc)
              | None \<Rightarrow>
                  if e = CHR ''u'' \<and> length r \<ge> 4 \<and> list_all is_hex (take 4 r)
                  then read_string_body r (e # c # acc)
                  else None))
      else if (of_char c :: nat) < 32 then None
      else read_string_body cs (c # acc))"

fun read_value :: "nat \<Rightarrow> string \<Rightarrow> (json \<times> string) option"
  and read_elems :: "nat \<Rightarrow> string \<Rightarrow> json list \<Rightarrow> (json \<times> string) option"
  and read_members :: "nat \<Rightarrow> string \<Rightarrow> (string \<times> json) list \<Rightarrow> (json \<times> string) option"
where
  "read_value 0 s = None"
| "read_value (Suc n) s =
     (case skip_ws s of
        [] \<Rightarrow> None
      | c # cs \<Rightarrow>
          if c = CHR ''{'' then
            (case skip_ws cs of
               [] \<Rightarrow> None
             | d # r \<Rightarrow> if d = CHR ''}'' then Some (JObj [], r) else read_members n cs [])
          else if c = CHR ''['' then
            (case skip_ws cs of
               [] \<Rightarrow> None
             | d # r \<Rightarrow> if d = CHR '']'' then Some (JArr [], r) else read_elems n cs [])
          else if c = CHR 0x22 then
            (case read_string_body cs [] of
               None \<Rightarrow> None
             | Some (str, r) \<Rightarrow> Some (JStr str, r))
          else if take 4 (c # cs) = ''true'' then Some (JBool True, drop 4 (c # cs))
          else if take 5 (c # cs) = ''false'' then Some (JBool False, drop 5 (c # cs))
          else if take 4 (c # cs) = ''null'' then Some (JNull, drop 4 (c # cs))
          else (case read_number (c # cs) of
                  None \<Rightarrow> None
                | Some (num, r) \<Rightarrow> Some (JNum num, r)))"
| "read_elems 0 s acc = None"
| "read_elems (Suc n) s acc =
     (case read_value n s of
        None \<Rightarrow> None
      | Some (v, r) \<Rightarrow>
          (case skip_ws r of
             [] \<Rightarrow> None
           | d # r' \<Rightarrow>
               if d = CHR '','' then read_elems n r' (acc @ [v])
               else if d = CHR '']'' then Some (JArr (acc @ [v]), r')
               else None))"
| "read_members 0 s acc = None"
| "read_members (Suc n) s acc =
     (case skip_ws s of
        [] \<Rightarrow> None
      | q # ks \<Rightarrow>
          if q \<noteq> CHR 0x22 then None
          else (case read_string_body ks [] of
                  None \<Rightarrow> None
                | Some (k, r) \<Rightarrow>
                    (case skip_ws r of
                       [] \<Rightarrow> None
                     | col # r1 \<Rightarrow>
                         if col \<noteq> CHR '':'' then None
                         else (case read_value n r1 of
                                 None \<Rightarrow> None
                               | Some (v, r2) \<Rightarrow>
                                   (case skip_ws r2 of
                                      [] \<Rightarrow> None
                                    | d # r3 \<Rightarrow>
                                        if d = CHR '','' then read_members n r3 (acc @ [(k, v)])
                                        else if d = CHR ''}'' then Some (JObj (acc @ [(k, v)]), r3)
                                        else None)))))"

definition json_read :: "string \<Rightarrow> json option" where
  "json_read s =
     (case read_value (Suc (length s)) s of
        None \<Rightarrow> None
      | Some (v, r) \<Rightarrow> if skip_ws r = [] then Some v else None)"

subsection \<open>chat with a JSON spec\<close>

datatype ChatRole = System | User | Assistant

record ChatMessage =
  role :: ChatRole
  content :: string

fun join_lines :: "string list \<Rightarrow> string" where
  "join_lines [] = []"
| "join_lines [l] = l"
| "join_lines (l # m # ls) = l @ [CHR 0x0A] @ join_lines (m # ls)"

definition jsonOnlySystemPrompt :: "string \<Rightarrow> string" where
  "jsonOnlySystemPrompt instruction =
     join_lines [''You MUST output ONLY valid JSON.'',
                 ''No markdown. No prose. No code fences.'',
                 ''JSON Spec: '' @ instruction]"

text \<open>
  The exchange with the model's server belongs to the provider: \<open>llm messages
  temperature\<close> is the text of the reply, or the error thrown (no key, a status that is not
  OK, a connection that fails or is cut off). Both providers then do the same.
\<close>

type_synonym completion = "ChatMessage list \<Rightarrow> rat \<Rightarrow> error + string"

definition chat_json ::
  "completion \<Rightarrow> (string \<Rightarrow> json option) \<Rightarrow> ChatMessage list \<Rightarrow> rat \<Rightarrow> string \<Rightarrow>
     (json \<Rightarrow> error + 'a) \<Rightarrow> error + string \<times> 'a" where
  "chat_json llm JSON_parse messages temperature instruction parse =
     (case llm (\<lparr>role = System, content = jsonOnlySystemPrompt instruction\<rparr> # messages)
             temperature of
        Inl e \<Rightarrow> Inl e
      | Inr txt \<Rightarrow>
          (case safeJsonParse JSON_parse txt of
             Inl e \<Rightarrow> Inl e
           | Inr raw \<Rightarrow>
               (case parse raw of
                  Inl e \<Rightarrow> Inl e
                | Inr parsed \<Rightarrow> Inr (txt, parsed))))"

section \<open>Planner (agents/planner.ts)\<close>

datatype Intent = IntentText string | IntentObject string "string option"

datatype TimeSensitivity = TS_none | TS_recent | TS_current

record RawPlan =
  raw_intents :: "Intent list"
  raw_must_include :: "string list"
  raw_time_sensitivity :: TimeSensitivity

record Plan =
  intents :: "string list"
  must_include :: "string list"
  time_sensitivity :: TimeSensitivity

text \<open>A property of a parsed object: the last member of that name.\<close>

definition obj_member :: "(string \<times> json) list \<Rightarrow> string \<Rightarrow> json option" where
  "obj_member kvs k = map_of (rev kvs) k"

text \<open>
  \<open>IntentSchema\<close>: a string of at least 3 characters, or an object whose \<open>query\<close> is such a
  string and whose \<open>rationale\<close>, when present, is a string.
\<close>

definition IntentSchema_parse :: "json \<Rightarrow> Intent option" where
  "IntentSchema_parse j =
     (case j of
        JStr q \<Rightarrow> if length q \<ge> 3 then Some (IntentText q) else None
      | JObj kvs \<Rightarrow>
          (case obj_member kvs ''query'' of
             Some (JStr q) \<Rightarrow>
               if length q \<ge> 3 then
                 (case obj_member kvs ''rationale'' of
                    None \<Rightarrow> Some (IntentObject q None)
                  | Some (JStr r) \<Rightarrow> Some (IntentObject q (Some r))
                  | Some _ \<Rightarrow> None)
               else None
           | _ \<Rightarrow> None)
      | _ \<Rightarrow> None)"

fun all_some :: "'a option list \<Rightarrow> 'a list option" where
  "all_some [] = Some []"
| "all_some (None # xs) = None"
| "all_some (Some x # xs) = map_option ((#) x) (all_some xs)"

definition string_of_json :: "json \<Rightarrow> string option" where
  "string_of_json j = (case j of JStr x \<Rightarrow> Some x | _ \<Rightarrow> None)"

definition time_sensitivity_of :: "json \<Rightarrow> TimeSensitivity option" where
  "time_sensitivity_of j =
     (case j of
        JStr x \<Rightarrow>
          if x = ''none'' then Some TS_none
          else if x = ''recent'' then Some TS_recent
          else if x = ''current'' then Some TS_current
          else None
      | _ \<Rightarrow> None)"

text \<open>
  \<open>PlanSchema.parse\<close>: \<open>intents\<close> is an array of 2 to 6 intents; \<open>must_include\<close> is an array
  of strings and \<open>[]\<close> when absent; \<open>time_sensitivity\<close> is one of the three names and
  \<open>none\<close> when absent. It throws on anything else.
\<close>

definition PlanSchema_parse :: "json \<Rightarrow> error + RawPlan" where
  "PlanSchema_parse j =
     (case j of
        JObj kvs \<Rightarrow>
          (case obj_member kvs ''intents'' of
             Some (JArr xs) \<Rightarrow>
               if length xs < 2 \<or> length xs > 6 then Inl ZodError
               else (case all_some (map IntentSchema_parse xs) of
                       None \<Rightarrow> Inl ZodError
                     | Some its \<Rightarrow>
                         (case (case obj_member kvs ''must_include'' of
                                  None \<Rightarrow> Some []
                                | Some (JArr ys) \<Rightarrow> all_some (map string_of_json ys)
                                | Some _ \<Rightarrow> None) of
                            None \<Rightarrow> Inl ZodError
                          | Some mi \<Rightarrow>
                              (case (case obj_member kvs ''time_sensitivity'' of
                                       None \<Rightarrow> Some TS_none
                                     | Some t \<Rightarrow> time_sensitivity_of t) of
                                 None \<Rightarrow> Inl ZodError
                               | Some ts \<Rightarrow>
                                   Inr \<lparr>raw_intents = its, raw_must_include = mi,
                                        raw_time_sensitivity = ts\<rparr>)))
           | _ \<Rightarrow> Inl ZodError)
      | _ \<Rightarrow> Inl ZodError)"

definition normalizePlan :: "RawPlan \<Rightarrow> Plan" where
  "normalizePlan raw =
     \<lparr>intents = map (\<lambda>i. case i of IntentText q \<Rightarrow> q | IntentObject q r \<Rightarrow> q) (raw_intents raw),
      must_include = raw_must_include raw,
      time_sensitivity = raw_time_sensitivity raw\<rparr>"

definition plan_messages :: "string \<Rightarrow> ChatMessage list" where
  "plan_messages userQuestion =
     [\<lparr>role = User,
       content = join_lines
         [''Create a web research plan for the question below.'',
          ''Return 2-6 search intents optimized for authoritative sources and primary references.'',
          ''Output ONLY JSON.'',
          [],
          ''Return JSON with keys:'',
          ''- intents: array of strings (search queries). You MAY return objects { \"query\": \"...\", \"rationale\": \"...\" } but query must exist.'',
          ''- must_include: array of strings (optional)'',
          ''- time_sensitivity: one of \"none\" | \"recent\" | \"current\"'',
          [],
          ''Question:'',
          userQuestion]\<rparr>]"

definition plan_instruction :: string where
  "plan_instruction =
     ''{\"intents\":[\"search query 1\",\"search query 2\"],\"must_include\":[\"...\"],\"time_sensitivity\":\"none|recent|current\"}''"

text \<open>The body of the \<open>try\<close> block.\<close>

definition planQuery_try ::
  "completion \<Rightarrow> (string \<Rightarrow> json option) \<Rightarrow> string \<Rightarrow> error + Plan" where
  "planQuery_try llm JSON_parse userQuestion =
     (case chat_json llm JSON_parse (plan_messages userQuestion) (2 / 10) plan_instruction
             PlanSchema_parse of
        Inl e \<Rightarrow> Inl e
      | Inr (txt, raw) \<Rightarrow> Inr (normalizePlan raw))"

text \<open>The \<open>catch\<close> block.\<close>

definition fallback_plan :: "string \<Rightarrow> Plan" where
  "fallback_plan userQuestion =
     (let q = trim userQuestion
      in \<lparr>intents = slice_to 3 [q, q @ '' primary source'', q @ '' overview''],
          must_include = [],
          time_sensitivity = TS_none\<rparr>)"

definition planQuery ::
  "completion \<Rightarrow> (string \<Rightarrow> json option) \<Rightarrow> string \<Rightarrow> error + Plan" where
  "planQuery llm JSON_parse userQuestion =
     (case planQuery_try llm JSON_parse userQuestion of
        Inr p \<Rightarrow> Inr p
      | Inl e \<Rightarrow> Inr (fallback_plan userQuestion))"

text \<open>The fallback of the claim's words: the question as it was asked.\<close>

definition fallback_as_asked :: "string \<Rightarrow> Plan" where
  "fallback_as_asked question =
     \<lparr>intents = [question, question @ '' primary source'', question @ '' overview''],
      must_include = [],
      time_sensitivity = TS_none\<rparr>"

section \<open>Cache (services/cache.ts)\<close>

text \<open>
  The in-process store: a map from keys to a value and the time it expires. (With a
  remote store configured the two functions pass the call on to it.)
\<close>

record CacheValue =
  cv_value :: string
  expiresAt :: int

type_synonym Mem = "string \<Rightarrow> CacheValue option"


definition cacheSet :: "Mem \<Rightarrow> int \<Rightarrow> string \<Rightarrow> string \<Rightarrow> int \<Rightarrow> Mem" where
  "cacheSet mem now key v ttlSeconds =
     mem(key \<mapsto> \<lparr>cv_value = v, expiresAt = now + ttlSeconds * 1000\<rparr>)"

section \<open>Orchestrator (routes/chat.ts)\<close>

subsection \<open>normalizeQuestion, artifactKey, streamTextQuick, mergeSourcesByHash\<close>

datatype Mode = Normal | Reliability







datatype sse =
    Meta string string Mode
  | Status string nat nat
  | Token string
  | ClaimsEvent "ClaimRecord list"
  | DoneEvent string
  | ErrorEvent string


fun merge_loop ::
  "int \<Rightarrow> EvidenceSource list \<Rightarrow> string set \<Rightarrow> EvidenceSource list \<Rightarrow> EvidenceSource list" where
  "merge_loop cap [] seen out = out"
| "merge_loop cap (x # xs) seen out =
     (if contentHash x \<in> seen then merge_loop cap xs seen out
      else (let out' = out @ [x]
            in if int (length out') \<ge> cap then out'
               else merge_loop cap xs (insert (contentHash x) seen) out'))"

definition mergeSourcesByHash ::
  "EvidenceSource list \<Rightarrow> EvidenceSource list \<Rightarrow> int \<Rightarrow> EvidenceSource list" where
  "mergeSourcesByHash a b cap = merge_loop cap (a @ b) {} []"

subsection \<open>Retrieval with the widened second pass\<close>

definition requiredSources :: "Mode \<Rightarrow> nat" where
  "requiredSources md = (if md = Reliability then 3 else 2)"

definition chat_opts :: "Mode \<Rightarrow> ResearchOptions" where
  "chat_opts md =
     \<lparr>budgetMs = 7000,
      perIntentUrls = (if md = Reliability then 3 else 2),
      concurrency = 3,
      maxSources = 6,
      minSources = int (requiredSources md)\<rparr>"

text \<open>
  What the handler has after retrieval: the intent lists it passed to \<open>research\<close>, in
  order, the sources and the trace. \<open>envs k\<close> is the environment of call number \<open>k\<close>.
\<close>

record Retrieved =
  rt_calls :: "string list list"
  rt_sources :: "EvidenceSource list"
  rt_trace :: "TraceEvent list"

definition retrieve ::
  "(nat \<Rightarrow> Env) \<Rightarrow> Mode \<Rightarrow> string \<Rightarrow> string list \<Rightarrow> Retrieved outcome" where
  "retrieve envs md msg plan_intents =
     (let opts = chat_opts md
      in case research (envs 0) plan_intents opts of
           Throws e \<Rightarrow> Throws e
         | Pending \<Rightarrow> Pending
         | Returns researched1 \<Rightarrow>
             if md = Reliability \<and> length (res_sources researched1) < requiredSources md
             then (let extraIntents =
                         plan_intents @ [msg @ '' definition'', msg @ '' authoritative source'']
                   in case research (envs 1) extraIntents opts of
                        Throws e \<Rightarrow> Throws e
                      | Pending \<Rightarrow> Pending
                      | Returns researched2 \<Rightarrow>
                          Returns
                            \<lparr>rt_calls = [plan_intents, extraIntents],
                             rt_sources = mergeSourcesByHash (res_sources researched1)
                                            (res_sources researched2) 6,
                             rt_trace = Planner plan_intents # res_trace researched1
                                          @ res_trace researched2\<rparr>)
             else Returns
                    \<lparr>rt_calls = [plan_intents],
                     rt_sources = res_sources researched1,
                     rt_trace = Planner plan_intents # res_trace researched1\<rparr>)"

text \<open>
  The content-hash union of the claim's words: the two passes one after the other, the
  first occurrence of every hash kept, at most \<open>cap\<close> of them.
\<close>

definition hash_union_capped ::
  "EvidenceSource list \<Rightarrow> EvidenceSource list \<Rightarrow> nat \<Rightarrow> EvidenceSource list" where
  "hash_union_capped a b cap = take cap (first_by_hash (a @ b))"

subsection \<open>chatHandler\<close>

record ArtifactSource =
  as_url :: string
  as_title :: string
  as_domain :: string
  as_excerpt :: string
  as_contentHash :: string

record CachedArtifact =
  finalAnswer :: string
  art_sources :: "ArtifactSource list"
  art_trace :: "TraceEvent list"
  art_claims :: "ClaimRecord list"

record ChatReq =
  conversationId :: "string option"
  message :: string
  mode :: Mode

text \<open>The collaborators the handler calls, in the order it calls them.\<close>

datatype call =
    CallPlanner string
  | CallResearch "string list"
  | CallAnswer
  | CallPersist string

text \<open>
  Drafting, verifying and writing the answer (responder, verifier and the streaming
  model) stand behind \<open>answer\<close>: the events sent meanwhile, the final text and the
  verified claims, or the error thrown.
\<close>

record Answered =
  ans_events :: "sse list"
  ans_finalText :: string
  ans_claims :: "ClaimRecord list"

text \<open>
  The world of one request: the identifiers drawn, the clock at \<open>cacheGet\<close> and at
  \<open>cacheSet\<close>, the fast model, the platform's \<open>JSON.parse\<close>, the environments of the calls
  of \<open>research\<close>, and \<open>JSON.stringify\<close> and \<open>JSON.parse\<close> on artifacts.
\<close>

record World =
  new_conversation :: string
  runId :: string
  now_get :: int
  now_set :: int
  llmFast :: completion
  JSON_parse_of :: "string \<Rightarrow> json option"
  envs :: "nat \<Rightarrow> Env"
  answer :: "Mode \<Rightarrow> string \<Rightarrow> EvidenceSource list \<Rightarrow> error + Answered"
  encode :: "CachedArtifact \<Rightarrow> string"
  decode :: "string \<Rightarrow> CachedArtifact option"

record Handled =
  events :: "sse list"
  calls :: "call list"
  mem_after :: Mem

definition error_message :: "error \<Rightarrow> string" where
  "error_message e =
     (case e of
        Error m \<Rightarrow> m
      | SyntaxError \<Rightarrow> ''Unexpected token in JSON''
      | ZodError \<Rightarrow> ''Invalid input''
      | TypeError \<Rightarrow> ''Cannot read properties of undefined'')"


definition to_artifact_source :: "EvidenceSource \<Rightarrow> ArtifactSource" where
  "to_artifact_source s =
     \<lparr>as_url = url s, as_title = title s, as_domain = domain s, as_excerpt = excerpt s,
      as_contentHash = contentHash s\<rparr>"


text \<open>The rest of the handler, taken when the cache has nothing.\<close>

definition cache_miss ::
  "World \<Rightarrow> ChatReq \<Rightarrow> sse list \<Rightarrow> Mem \<Rightarrow> string \<Rightarrow> Handled outcome" where
  "cache_miss world req sent mem ck =
     (case planQuery (llmFast world) (JSON_parse_of world) (message req) of
        Inl e \<Rightarrow>
          Returns \<lparr>events = sent @ [Status ''Planning searches...'' 1 4,
                                     ErrorEvent (error_message e)],
                   calls = [CallPlanner (message req)], mem_after = mem\<rparr>
      | Inr plan \<Rightarrow>
          (let sent1 = sent @ [Status ''Planning searches...'' 1 4,
                               Status ''Searching & fetching sources...'' 2 4]
           in case retrieve (envs world) (mode req) (message req) (intents plan) of
                Pending \<Rightarrow> Pending
              | Throws e \<Rightarrow>
                  Returns \<lparr>events = sent1 @ [ErrorEvent (error_message e)],
                           calls = [CallPlanner (message req), CallResearch (intents plan)],
                           mem_after = mem\<rparr>
              | Returns rt \<Rightarrow>
                  (let sent2 = sent1 @ (if length (rt_calls rt) > 1
                                        then [Status ''Fetching extra sources...'' 2 4] else []);
                       called = CallPlanner (message req) # map CallResearch (rt_calls rt)
                                  @ [CallPersist (runId world), CallAnswer]
                   in case answer world (mode req) (message req) (rt_sources rt) of
                        Inl e \<Rightarrow>
                          Returns \<lparr>events = sent2 @ [ErrorEvent (error_message e)],
                                   calls = called, mem_after = mem\<rparr>
                      | Inr a \<Rightarrow>
                          (let artifact =
                                 \<lparr>finalAnswer = ans_finalText a,
                                  art_sources = map to_artifact_source (rt_sources rt),
                                  art_trace = rt_trace rt,
                                  art_claims = (if mode req = Normal then [] else ans_claims a)\<rparr>
                           in Returns
                                \<lparr>events = sent2 @ ans_events a
                                     @ [Status ''Done'' 4 4, DoneEvent (runId world)],
                                 calls = called,
                                 mem_after = cacheSet mem (now_set world) ck
                                               (encode world artifact) (2 * 60 * 60)\<rparr>))))"




section \<open>Notions used to state the properties\<close>

text \<open>The normalized domain of a selected candidate.\<close>

definition sel_domain :: "(string \<Rightarrow> string option) \<Rightarrow> Candidate \<Rightarrow> string option" where
  "sel_domain hn c = domainOf hn (cand_url c)"


section \<open>Concrete inputs\<close>

subsection \<open>A claim of 29 tokens and a source that has 13 of them\<close>

definition claim29 :: string where
  "claim29 = ''tk01 tk02 tk03 tk04 tk05 tk06 tk07 tk08 tk09 tk10 tk11 tk12 tk13 tk14 tk15 tk16 tk17 tk18 tk19 tk20 tk21 tk22 tk23 tk24 tk25 tk26 tk27 tk28 tk29''"

definition text13 :: string where
  "text13 = ''tk01 tk02 tk03 tk04 tk05 tk06 tk07 tk08 tk09 tk10 tk11 tk12 tk13''"

definition source13 :: EvidenceSource where
  "source13 =
     \<lparr>url = ''https://a.org/x'', title = ''A'', domain = ''a.org'', excerpt = text13,
      body = text13, contentHash = ''h13''\<rparr>"

subsection \<open>Search results, pages and documents\<close>

text \<open>
  The host of a URL \<open>https://host/path\<close> with a lower-case host and neither port nor user
  name, where the platform's \<open>hostname\<close> has the same value.
\<close>

definition host_simple :: "string \<Rightarrow> string option" where
  "host_simple u =
     (if take 8 u = ''https://''
      then (let h = takeWhile (\<lambda>c. c \<noteq> CHR ''/'') (drop 8 u)
            in if h = [] then None else Some h)
      else None)"

definition snippet_ok :: string where
  "snippet_ok = ''A snippet that is long enough to be informative.''"

definition result_a :: SearchResult where
  "result_a = \<lparr>sr_title = ''A'', link = ''https://www.a.org/x'', snippet = snippet_ok\<rparr>"

definition result_b :: SearchResult where
  "result_b = \<lparr>sr_title = ''B'', link = ''https://b.org/y'', snippet = snippet_ok\<rparr>"

definition cand_a :: Candidate where
  "cand_a = \<lparr>cand_url = link result_a, reason = select_reason\<rparr>"

definition cand_b :: Candidate where
  "cand_b = \<lparr>cand_url = link result_b, reason = select_reason\<rparr>"

definition page_ok :: "string \<Rightarrow> FetchResult" where
  "page_ok u =
     \<lparr>fr_url = u, status = 200, contentType = ''text/html; charset=utf-8'',
      html = ''<html><body><p>x</p></body></html>''\<rparr>"

definition page_failed :: "string \<Rightarrow> FetchResult" where
  "page_failed u = \<lparr>fr_url = u, status = 0, contentType = [], html = []\<rparr>"

definition doc_of :: "string \<Rightarrow> ExtractedDoc" where
  "doc_of h =
     \<lparr>doc_title = ''T'', doc_text = replicate 300 CHR ''x'', doc_excerpt = replicate 10 CHR ''x'',
      doc_contentHash = h\<rparr>"

subsection \<open>Environments of research\<close>


text \<open>One result; its page is fetched and extracted.\<close>

definition env_first :: Env where
  "env_first =
     \<lparr>webSearch = (\<lambda>q k. Inr [result_a]), hostname_of = host_simple, t_start = 1000,
      schedule = [Go 0 1000,
                  FetchDone 0 1400 (page_ok (link result_a)),
                  ExtractDone 0 1500 (Some (doc_of ''h1''))],
      t_end = 1500\<rparr>"

text \<open>
  One result for the query \<open>q\<close>, another for \<open>q definition\<close>, none for any other query.
  Two workers; both pages are fetched and extracted.
\<close>

definition env_second :: Env where
  "env_second =
     \<lparr>webSearch = (\<lambda>q k. Inr (if q = ''q'' then [result_a]
                                else if q = ''q definition'' then [result_b]
                                else [])),
      hostname_of = host_simple, t_start = 2000,
      schedule = [Go 0 2000, Go 1 2000,
                  FetchDone 1 2200 (page_ok (link result_b)),
                  ExtractDone 1 2300 (Some (doc_of ''h2'')),
                  FetchDone 0 2400 (page_ok (link result_a)),
                  ExtractDone 0 2500 (Some (doc_of ''h1''))],
      t_end = 2500\<rparr>"

definition envs_widen :: "nat \<Rightarrow> Env" where
  "envs_widen k = (if k = 0 then env_first else env_second)"

text \<open>
  One task, taken at 1000 with the deadline at 8000. Its fetch returns a good page at
  \<open>t_fetch\<close>; extraction then returns a good document.
\<close>

definition env_fetch_at :: "int \<Rightarrow> Env" where
  "env_fetch_at t_fetch =
     \<lparr>webSearch = (\<lambda>q k. Inr [result_a]), hostname_of = host_simple, t_start = 1000,
      schedule = [Go 0 1000,
                  FetchDone 0 t_fetch (page_ok (link result_a)),
                  ExtractDone 0 (t_fetch + 100) (Some (doc_of ''h1''))],
      t_end = t_fetch + 100\<rparr>"





section \<open>Properties of the verifier\<close>

subsection \<open>The overlap score\<close>

lemma count_hits_filter: "count_hits ct ws hit = hit + length (filter (\<lambda>w. w \<in> ct) ws)"
  by (induction ws arbitrary: hit) auto

lemma overlapScore_eq:
  "overlapScore clm chunk =
     min 1 (of_nat (length (filter (\<lambda>w. w \<in> set (normalizeTokens clm)) (normalizeTokens chunk)))
            / of_nat (max 8 (card (set (normalizeTokens clm)))))"
  by (auto simp: overlapScore_def Let_def count_hits_filter)

lemma overlapScore_range: "0 \<le> overlapScore clm chunk \<and> overlapScore clm chunk \<le> 1"
proof -
  have "(0::rat) \<le> of_nat a / of_nat b" for a b :: nat
    by simp
  then show ?thesis
    unfolding overlapScore_eq by simp
qed

subsection \<open>Tokens are the runs of letters and digits\<close>

lemma alnum_not_space: "is_lower_alnum c \<Longrightarrow> \<not> is_space c"
  by (auto simp: is_lower_alnum_def is_space_def)

lemma alnum_runs_split:
  "filter (\<lambda>t. t \<noteq> []) [takeWhile is_lower_alnum s] @ alnum_runs (dropWhile is_lower_alnum s)
     = alnum_runs s"
  by (cases s) auto

lemma split_ws_from_runs:
  assumes "inws \<longrightarrow> cur = []"
  shows "filter (\<lambda>t. t \<noteq> []) (split_ws_from cur inws (replace_non_token s)) =
           filter (\<lambda>t. t \<noteq> []) [rev cur @ takeWhile is_lower_alnum s]
             @ alnum_runs (dropWhile is_lower_alnum s)"
  using assms
proof (induction s arbitrary: cur inws)
  case Nil
  then show ?case by (simp add: replace_non_token_def)
next
  case (Cons c cs)
  have IH: "\<And>cur inws. (inws \<longrightarrow> cur = []) \<Longrightarrow>
      filter (\<lambda>t. t \<noteq> []) (split_ws_from cur inws (replace_non_token cs)) =
        filter (\<lambda>t. t \<noteq> []) [rev cur @ takeWhile is_lower_alnum cs]
          @ alnum_runs (dropWhile is_lower_alnum cs)"
    using Cons.IH by blast
  have rep: "replace_non_token (c # cs) =
      (if is_lower_alnum c \<or> is_space c then c else CHR '' '') # replace_non_token cs"
    by (simp add: replace_non_token_def)
  show ?case
  proof (cases "is_lower_alnum c")
    case True
    then have ns: "\<not> is_space c" by (rule alnum_not_space)
    show ?thesis
      using True ns IH [of False "c # cur"] by (simp add: rep)
  next
    case False
    have sp: "is_space (if is_lower_alnum c \<or> is_space c then c else CHR '' '')"
      using False by (simp add: is_space_def)
    have rest:
      "filter (\<lambda>t. t \<noteq> []) (split_ws_from [] True (replace_non_token cs)) = alnum_runs cs"
      using IH [of True "[]"] alnum_runs_split [of cs] by simp
    show ?thesis
    proof (cases inws)
      case True
      then have "cur = []" using Cons.prems by simp
      then show ?thesis using False sp rest True by (simp add: rep)
    next
      case inws: False
      then show ?thesis using False sp rest by (simp add: rep)
    qed
  qed
qed

lemma filter_len4_nonempty:
  "filter (\<lambda>t. 4 \<le> length t) (filter (\<lambda>t. t \<noteq> []) xs) =
     filter (\<lambda>t. 4 \<le> length (t::string)) xs"
  by (induction xs) auto

lemma normalizeTokens_runs:
  "normalizeTokens s = filter (\<lambda>t. 4 \<le> length t) (alnum_runs (toLowerCase s))"
proof -
  have "filter (\<lambda>t. t \<noteq> []) (split_ws (replace_non_token (toLowerCase s))) =
          alnum_runs (toLowerCase s)"
    unfolding split_ws_def
    using split_ws_from_runs [of False "[]" "toLowerCase s"] alnum_runs_split [of "toLowerCase s"]
    by simp
  then show ?thesis
    unfolding normalizeTokens_def
    by (metis filter_len4_nonempty)
qed

text \<open>
  C4, as stated, fails: the loop runs over the list of chunk tokens, so a token that
  occurs twice in the chunk is counted twice. The claim's formula gives 1/8 for the
  chunk below, the code 1/4, and repeating the word has raised the score.
\<close>

theorem overlapScore_repeats_counted:
  "overlapScore ''water boils'' ''water water'' = 1 / 4 \<and>
   overlap_distinct ''water boils'' ''water water'' = 1 / 8 \<and>
   overlapScore ''water boils'' ''water'' < overlapScore ''water boils'' ''water water''"
  by code_simp

text \<open>
  C4, amended: for every claim and chunk the score is the number of chunk token
  occurrences (each repetition counted) that are claim tokens, over
  \<open>max(8, |claim token set|)\<close>, clamped to 1; the tokens of a text are the maximal runs of
  characters \<open>[a-z0-9]\<close> of the lower-cased text that have at least 4 characters.
\<close>

theorem overlapScore_counts_occurrences:
  "overlapScore clm chunk =
     min 1 (of_nat (length (filter (\<lambda>w. w \<in> set (normalizeTokens clm)) (normalizeTokens chunk)))
            / of_nat (max 8 (card (set (normalizeTokens clm)))))
   \<and> normalizeTokens s = filter (\<lambda>t. 4 \<le> length t) (alnum_runs (toLowerCase s))"
  using overlapScore_eq normalizeTokens_runs by blast

subsection \<open>The score and the label of a claim record\<close>

lemma Max_insert_max:
  fixes a x :: rat
  assumes "finite S"
  shows "Max (insert (max a x) S) = Max (insert a (insert x S))"
proof (cases "S = {}")
  case True
  then show ?thesis by simp
next
  case False
  with assms show ?thesis by (simp add: max.assoc)
qed

lemma best_step_snd:
  "snd (foldl (best_step clm) b chunks) = Max (insert (snd b) (overlapScore clm ` set chunks))"
proof (induction chunks arbitrary: b)
  case Nil
  then show ?case by simp
next
  case (Cons c cs)
  have "snd (best_step clm b c) = max (snd b) (overlapScore clm c)"
    by (simp add: best_step_def Let_def max_def)
  then show ?case
    using Cons.IH [of "best_step clm b c"]
    by (simp add: Max_insert_max)
qed

lemma best_of_snd: "snd (best_of clm (chunkText (body s) 900)) = best_overlap clm s"
  by (simp add: best_of_def best_step_snd best_overlap_def)

lemma Max_insert0_range:
  fixes S :: "rat set"
  assumes "finite S" "\<forall>x \<in> S. 0 \<le> x \<and> x \<le> 1"
  shows "0 \<le> Max (insert 0 S) \<and> Max (insert 0 S) \<le> 1"
proof -
  have "Max (insert 0 S) \<in> insert 0 S"
    using assms(1) by (intro Max_in) auto
  then show ?thesis using assms(2) by auto
qed

lemma best_overlap_range: "0 \<le> best_overlap clm s \<and> best_overlap clm s \<le> 1"
  unfolding best_overlap_def
  by (rule Max_insert0_range) (auto simp: overlapScore_range)

lemma evidenceScored_scores:
  "sc_score ` set (evidenceScored clm (map (\<lambda>s. (url s, chunkText (body s) 900)) srcs)) =
     {b \<in> best_overlap clm ` set srcs. b > 0}"
  by (auto simp: evidenceScored_def Let_def best_of_snd image_iff split: if_splits)

lemma hd_sort_desc:
  assumes "es \<noteq> []"
  shows "sc_score (hd (sort_desc es)) = Max (sc_score ` set es)"
proof -
  let ?f = "\<lambda>e. - sc_score e"
  let ?xs = "sort_key ?f es"
  have ne: "?xs \<noteq> []"
  proof
    assume "?xs = []"
    then have "set es = {}" using set_sort [of ?f es] by simp
    then show False using assms by simp
  qed
  then obtain x xs where xs: "?xs = x # xs" by (cases ?xs) auto
  have sorted: "sorted (map ?f ?xs)" by simp
  have seteq: "set ?xs = set es" by simp
  have xin: "x \<in> set es" using xs seteq by (metis list.set_intros(1))
  have "\<forall>y \<in> set es. sc_score y \<le> sc_score x"
  proof
    fix y assume "y \<in> set es"
    then have "y \<in> set (x # xs)" using xs seteq by simp
    then show "sc_score y \<le> sc_score x"
      using sorted xs by auto
  qed
  then have "Max (sc_score ` set es) = sc_score x"
    using xin by (intro Max_eqI) auto
  then show ?thesis by (simp add: sort_desc_def xs)
qed

lemma Max_insert0_pos:
  fixes B :: "rat set"
  assumes "finite B" "\<forall>b \<in> B. 0 \<le> b" "{b \<in> B. 0 < b} \<noteq> {}"
  shows "Max {b \<in> B. 0 < b} = Max (insert 0 B)"
proof (rule Max_eqI)
  show "finite {b \<in> B. 0 < b}" using assms by simp
  fix y assume "y \<in> {b \<in> B. 0 < b}"
  then show "y \<le> Max (insert 0 B)" using assms by (intro Max_ge) auto
next
  have fin: "finite (insert 0 B)" using assms by simp
  have "Max (insert 0 B) \<in> insert 0 B" using fin by (intro Max_in) auto
  moreover obtain c where c: "c \<in> B" "0 < c" using assms(3) by auto
  then have "c \<le> Max (insert 0 B)" using fin by (intro Max_ge) auto
  ultimately show "Max (insert 0 B) \<in> {b \<in> B. 0 < b}" using c by auto
qed

lemma maxScore_eq: "maxScore clm srcs = max_best_overlap clm srcs"
proof -
  let ?es = "evidenceScored clm (map (\<lambda>s. (url s, chunkText (body s) 900)) srcs)"
  let ?B = "best_overlap clm ` set srcs"
  have nonneg: "\<forall>b \<in> ?B. 0 \<le> b" using best_overlap_range by auto
  show ?thesis
  proof (cases "?es = []")
    case True
    then have "{b \<in> ?B. 0 < b} = {}"
      using evidenceScored_scores [of clm srcs] by simp
    then have "\<forall>b \<in> ?B. b = 0" using nonneg by force
    then have "Max (insert 0 ?B) = 0"
      by (intro Max_eqI) auto
    moreover have "maxScore clm srcs = 0"
      using True by (simp add: maxScore_def top_evidence_def sort_desc_def slice_to_def)
    ultimately show ?thesis by (simp add: max_best_overlap_def)
  next
    case False
    have sne: "sort_desc ?es \<noteq> []"
    proof
      assume "sort_desc ?es = []"
      then have "set ?es = {}"
        using set_sort [of "\<lambda>e. - sc_score e" ?es] by (simp add: sort_desc_def)
      then show False using False by simp
    qed
    then have "maxScore clm srcs = sc_score (hd (sort_desc ?es))"
      by (cases "sort_desc ?es") (simp_all add: maxScore_def top_evidence_def slice_to_def)
    also have "\<dots> = Max (sc_score ` set ?es)" using False by (rule hd_sort_desc)
    also have "\<dots> = Max {b \<in> ?B. 0 < b}" by (simp add: evidenceScored_scores)
    also have "\<dots> = Max (insert 0 ?B)"
    proof (rule Max_insert0_pos)
      show "finite ?B" by simp
      show "\<forall>b \<in> ?B. 0 \<le> b" by (rule nonneg)
      from False obtain e where "e \<in> set ?es"
        by (cases ?es) auto
      then have "sc_score e \<in> sc_score ` set ?es"
        by (rule imageI)
      then show "{b \<in> ?B. 0 < b} \<noteq> {}"
        unfolding evidenceScored_scores by blast
    qed
    finally show ?thesis by (simp add: max_best_overlap_def)
  qed
qed

lemma max_best_overlap_range:
  "0 \<le> max_best_overlap clm srcs \<and> max_best_overlap clm srcs \<le> 1"
  unfolding max_best_overlap_def
  by (rule Max_insert0_range) (auto simp: best_overlap_range)

subsection \<open>The double that holds a score, and its two decimals\<close>

lemma halvings_bounds:
  "0 < x \<Longrightarrow> x < 1 \<Longrightarrow> 1 \<le> x * 2 ^ halvings x \<and> x * 2 ^ halvings x < 2"
proof (induction x rule: halvings.induct)
  case (1 x)
  show ?case
  proof (cases "1 \<le> 2 * x")
    case True
    then have "halvings (2 * x) = 0" by (simp add: halvings.simps)
    then have "halvings x = 1" using 1(2,3) by (simp add: halvings.simps [of x])
    then show ?thesis using True 1(3) by simp
  next
    case False
    then have "1 \<le> 2 * x * 2 ^ halvings (2 * x) \<and> 2 * x * 2 ^ halvings (2 * x) < 2"
      using 1 by simp
    moreover have "halvings x = Suc (halvings (2 * x))"
      using 1(2,3) by (simp add: halvings.simps [of x])
    ultimately show ?thesis by (simp add: mult.assoc mult.left_commute)
  qed
qed

lemma halvings_pos: "0 < x \<Longrightarrow> x < 1 \<Longrightarrow> 0 < halvings x"
  by (simp add: halvings.simps [of x])

lemma halvings_one: "1 \<le> x \<Longrightarrow> halvings x = 0"
  by (simp add: halvings.simps)

lemma round_half_even_near:
  "\<bar>of_int (round_half_even q) - q\<bar> \<le> 1 / 2"
proof -
  have "of_int \<lfloor>q\<rfloor> \<le> q" "q < of_int \<lfloor>q\<rfloor> + 1" by linarith+
  then show ?thesis
    by (auto simp: round_half_even_def Let_def)
qed

lemma round_half_even_int: "round_half_even (of_int n) = n"
  by (simp add: round_half_even_def)

lemma scaled_bounds:
  assumes "0 < x" "x \<le> 1"
  shows "2 ^ 52 \<le> x * 2 ^ (halvings x + 52) \<and> x * 2 ^ (halvings x + 52) < 2 ^ 53"
proof (cases "x < 1")
  case True
  have b: "1 \<le> x * 2 ^ halvings x" "x * 2 ^ halvings x < 2"
    using halvings_bounds [OF assms(1) True] by auto
  have e: "x * 2 ^ (halvings x + 52) = (x * 2 ^ halvings x) * 2 ^ 52"
    by (simp add: power_add)
  have "1 * 2 ^ 52 \<le> (x * 2 ^ halvings x) * (2 ^ 52 :: rat)"
    using b(1) by (intro mult_right_mono) auto
  moreover have "(x * 2 ^ halvings x) * (2 ^ 52 :: rat) < 2 * 2 ^ 52"
    using b(2) by (intro mult_strict_right_mono) auto
  ultimately show ?thesis unfolding e by simp
next
  case False
  then have "x = 1" using assms by simp
  then show ?thesis by (simp add: halvings_one)
qed

lemma to_double_nearest:
  assumes "0 < x" "x \<le> 1"
  shows "\<exists>N :: int. to_double x = of_int N / 2 ^ (halvings x + 52)
     \<and> \<bar>of_int N - x * 2 ^ (halvings x + 52)\<bar> \<le> 1 / 2
     \<and> 2 ^ 52 \<le> N \<and> N \<le> 2 ^ 53"
proof -
  let ?q = "x * 2 ^ (halvings x + 52)"
  let ?N = "round_half_even ?q"
  have near: "\<bar>of_int ?N - ?q\<bar> \<le> 1 / 2" by (rule round_half_even_near)
  have q: "2 ^ 52 \<le> ?q" "?q < 2 ^ 53" using scaled_bounds [OF assms] by auto
  have "(2 ^ 52 :: rat) - 1 / 2 \<le> of_int ?N" using near q(1) by linarith
  then have "(of_int (2 ^ 52 - 1) :: rat) < of_int ?N" by simp
  then have lo: "2 ^ 52 \<le> ?N" by (simp only: of_int_less_iff)
  have "of_int ?N < (2 ^ 53 :: rat) + 1 / 2" using near q(2) by linarith
  then have "(of_int ?N :: rat) < of_int (2 ^ 53 + 1)" by simp
  then have hi: "?N \<le> 2 ^ 53" by (simp only: of_int_less_iff)
  have "to_double x = of_int ?N / 2 ^ (halvings x + 52)"
    using assms by (simp add: to_double_def)
  then show ?thesis using near lo hi by blast
qed

lemma to_double_range:
  assumes "0 \<le> x" "x \<le> 1"
  shows "0 \<le> to_double x \<and> to_double x \<le> 1"
proof (cases "x = 0")
  case True
  then show ?thesis by (simp add: to_double_def)
next
  case False
  then have x: "0 < x" using assms by simp
  obtain N :: int where N: "to_double x = of_int N / 2 ^ (halvings x + 52)"
    "2 ^ 52 \<le> N" "N \<le> 2 ^ 53"
    using to_double_nearest [OF x assms(2)] by blast
  have nonneg: "0 \<le> to_double x" using N(1,2) by simp
  have le: "to_double x \<le> 1"
  proof (cases "x < 1")
    case True
    then obtain k where k: "halvings x = Suc k"
      using halvings_pos [OF x True] by (cases "halvings x") auto
    have "(of_int N :: rat) \<le> of_int (2 ^ 53)" using N(3) by (simp only: of_int_le_iff)
    then have "(of_int N :: rat) \<le> 2 ^ 53" by simp
    also have "(2 ^ 53 :: rat) \<le> 2 ^ (Suc k + 52)"
      by (intro power_increasing) auto
    finally show ?thesis unfolding N(1) k by simp
  next
    case False
    then have "x = 1" using assms by simp
    then show ?thesis by (simp add: to_double_def halvings_one round_half_even_def)
  qed
  show ?thesis using nonneg le by simp
qed

lemma to_double_error:
  assumes "0 \<le> x" "x \<le> 1"
  shows "\<bar>to_double x - x\<bar> \<le> x / 2 ^ 53"
proof (cases "x = 0")
  case True
  then show ?thesis by (simp add: to_double_def)
next
  case False
  then have x: "0 < x" using assms by simp
  let ?p = "(2 :: rat) ^ (halvings x + 52)"
  obtain N :: int where N: "to_double x = of_int N / ?p" "\<bar>of_int N - x * ?p\<bar> \<le> 1 / 2"
    using to_double_nearest [OF x assms(2)] by blast
  have p: "0 < ?p" by simp
  have "to_double x - x = (of_int N - x * ?p) / ?p"
    unfolding N(1) by (simp add: field_simps)
  then have "\<bar>to_double x - x\<bar> = \<bar>of_int N - x * ?p\<bar> / ?p"
    by (simp add: abs_divide)
  also have "\<dots> \<le> (1 / 2) / ?p"
    using N(2) p by (intro divide_right_mono) auto
  also have "\<dots> \<le> x / 2 ^ 53"
  proof -
    have "2 ^ 52 \<le> x * ?p" using scaled_bounds [OF x assms(2)] by simp
    then have "(1 / 2) * 2 ^ 53 \<le> x * ?p" by simp
    then show ?thesis using p by (simp add: field_simps)
  qed
  finally show ?thesis .
qed

lemma toFixed2_range:
  assumes "0 \<le> x" "x \<le> 1"
  shows "0 \<le> toFixed2 x \<and> toFixed2 x \<le> 1"
proof -
  let ?d = "to_double x"
  have d: "0 \<le> ?d" "?d \<le> 1" using to_double_range [OF assms] by auto
  have "0 \<le> ?d * 100 + 1 / 2" using d by simp
  then have lo: "0 \<le> \<lfloor>?d * 100 + 1 / 2\<rfloor>" by simp
  have "?d * 100 + 1 / 2 < 101" using d by simp
  then have "\<lfloor>?d * 100 + 1 / 2\<rfloor> < 101" by (simp add: floor_less_iff)
  then have hi: "\<lfloor>?d * 100 + 1 / 2\<rfloor> \<le> 100" by simp
  have "(of_int \<lfloor>?d * 100 + 1 / 2\<rfloor> :: rat) \<le> of_int 100"
    using hi by (simp only: of_int_le_iff)
  then show ?thesis using lo by (simp add: toFixed2_def)
qed

lemma toFixed2_nearest:
  "\<exists>n :: int. toFixed2 x = of_int n / 100
     \<and> of_int n - 1 / 2 \<le> 100 * to_double x \<and> 100 * to_double x < of_int n + 1 / 2"
proof -
  let ?n = "\<lfloor>to_double x * 100 + 1 / 2\<rfloor>"
  have "of_int ?n \<le> to_double x * 100 + 1 / 2" "to_double x * 100 + 1 / 2 < of_int ?n + 1"
    by linarith+
  then have "of_int ?n - 1 / 2 \<le> 100 * to_double x \<and> 100 * to_double x < of_int ?n + 1 / 2"
    by (simp add: algebra_simps)
  then show ?thesis unfolding toFixed2_def by blast
qed

lemma toFixed2_clear:
  assumes "0 \<le> x" "x \<le> 1"
      and "of_int n - 49 / 100 \<le> 100 * x" "100 * x \<le> of_int n + 49 / 100"
  shows "toFixed2 x = of_int n / 100"
proof -
  let ?d = "to_double x"
  have "\<bar>?d - x\<bar> \<le> x / 2 ^ 53" by (rule to_double_error [OF assms(1,2)])
  also have "\<dots> \<le> 1 / 2 ^ 53" using assms(2) by (simp add: divide_right_mono)
  also have "\<dots> \<le> 1 / 100000" by simp
  finally have "\<bar>?d - x\<bar> \<le> 1 / 100000" .
  then have e: "x - 1 / 100000 \<le> ?d" "?d \<le> x + 1 / 100000"
    by linarith+
  have "of_int n \<le> ?d * 100 + 1 / 2" using e(1) assms(3) by linarith
  moreover have "?d * 100 + 1 / 2 < of_int n + 1" using e(2) assms(4) by linarith
  ultimately have "\<lfloor>?d * 100 + 1 / 2\<rfloor> = n" by (simp add: floor_eq_iff)
  then show ?thesis by (simp add: toFixed2_def)
qed

lemma halvings_7_40: "halvings (7 / 40) = 3"
  by (simp add: halvings.simps)

lemma to_double_7_40: "to_double (7 / 40) = 6305039478318694 / 2 ^ 55"
proof -
  have "\<lfloor>(7 / 40 :: rat) * 2 ^ 55\<rfloor> = 6305039478318694"
    by (simp add: floor_eq_iff)
  then have "round_half_even ((7 / 40) * 2 ^ 55) = 6305039478318694"
    by (simp add: round_half_even_def Let_def)
  then show ?thesis
    by (simp add: to_double_def halvings_7_40)
qed

lemma toFixed2_7_40: "toFixed2 (7 / 40) = 17 / 100"
proof -
  have "\<lfloor>(6305039478318694 / 2 ^ 55 :: rat) * 100 + 1 / 2\<rfloor> = 17"
    by (simp add: floor_eq_iff)
  then show ?thesis by (simp add: toFixed2_def to_double_7_40)
qed

lemma toFixed2_13_29: "toFixed2 (13 / 29) = 45 / 100"
  using toFixed2_clear [of "13 / 29" 45] by simp

lemma toFixed2_449: "toFixed2 (449 / 1000) = 45 / 100"
  using toFixed2_clear [of "449 / 1000" 45] by simp

lemma toFixed2_eighth: "toFixed2 (1 / 8) = 13 / 100"
proof -
  have h: "halvings (1 / 8) = 3" by (simp add: halvings.simps)
  have "to_double (1 / 8) = 1 / 8"
    by (simp add: to_double_def h round_half_even_def)
  then show ?thesis by (simp add: toFixed2_def floor_eq_iff)
qed

subsection \<open>The records of verifyClaims\<close>

lemma verifyClaims_member:
  assumes "r \<in> set (verifyClaims createId claims srcs)"
  shows "\<exists>cid. r = verifyClaim cid (claim r) srcs"
proof -
  from assms obtain k clm where "r = verifyClaim (createId k) clm srcs"
    by (auto simp: verifyClaims_def)
  moreover have "claim (verifyClaim cid clm srcs) = clm" for cid
    by (simp add: verifyClaim_def)
  ultimately show ?thesis by metis
qed

subsection \<open>The record of the 29-token claim\<close>

lemma overlap_claim29: "overlapScore claim29 text13 = 13 / 29"
  by code_simp

lemma chunkText_text13: "chunkText text13 900 = [text13]"
  by code_simp

lemma slice_text13: "slice_to 280 text13 = text13"
  by code_simp

lemma top_evidence_claim29:
  "top_evidence claim29 [source13] =
     [\<lparr>sc_sourceUrl = ''https://a.org/x'', sc_snippet = text13, sc_score = 13 / 29\<rparr>]"
proof -
  have s3: "slice_to 3 [e] = [e]" for e :: Scored
    by (simp add: slice_to_def)
  show ?thesis
    by (simp add: top_evidence_def evidenceScored_def best_of_def best_step_def Let_def
        source13_def chunkText_text13 overlap_claim29 slice_text13 sort_desc_def s3)
qed

lemma verifyClaims_claim29:
  "verifyClaims createId [claim29] [source13] =
     [\<lparr>claim_id = createId 0, claim = claim29, label = Unsupported, score = 45 / 100,
       evidence = [\<lparr>sourceUrl = ''https://a.org/x'', ev_snippet = text13\<rparr>]\<rparr>]"
proof -
  have m: "maxScore claim29 [source13] = 13 / 29"
    by (simp add: maxScore_def top_evidence_claim29)
  have l: "labelFromScore (13 / 29) = Unsupported"
    by (simp add: labelFromScore_def)
  show ?thesis
    by (simp add: verifyClaims_def verifyClaim_def m l toFixed2_13_29 top_evidence_claim29)
qed

lemma verifyClaim_fields:
  assumes "r \<in> set (verifyClaims createId claims srcs)"
  shows "score r = toFixed2 (max_best_overlap (claim r) srcs)"
    and "label r = labelFromScore (max_best_overlap (claim r) srcs)"
proof -
  obtain cid where r: "r = verifyClaim cid (claim r) srcs"
    using verifyClaims_member [OF assms] by blast
  have "score r = toFixed2 (maxScore (claim r) srcs)"
    by (subst r) (simp add: verifyClaim_def)
  then show "score r = toFixed2 (max_best_overlap (claim r) srcs)"
    by (simp add: maxScore_eq)
  have "label r = labelFromScore (maxScore (claim r) srcs)"
    by (subst r) (simp add: verifyClaim_def)
  then show "label r = labelFromScore (max_best_overlap (claim r) srcs)"
    by (simp add: maxScore_eq)
qed

text \<open>
  C5, as stated, fails: the label is not a function of the score the record reports. The
  record below reports the score 0.45, which the claim labels \<open>weak\<close>, and carries the
  label \<open>unsupported\<close>: the label comes from the score before rounding, 13/29.
\<close>

theorem verifyClaims_label_not_from_reported_score:
  "map (\<lambda>r. (score r, label r)) (verifyClaims (\<lambda>k. ''c1'') [claim29] [source13]) =
     [(45 / 100, Unsupported)]
   \<and> labelFromScore (45 / 100) = Weak"
  by (simp add: verifyClaims_claim29 labelFromScore_def)

text \<open>
  C5, amended: for every claim record returned by verifyClaims, with \<open>m\<close> the claim's
  unrounded maximum overlap (the largest per-source best overlap) and \<open>d\<close> the double that
  holds it: the score lies in [0,1] and is a whole number \<open>n\<close> of hundredths, the one
  nearest to \<open>d\<close> (the larger of two), where \<open>d\<close> differs from \<open>m\<close> by at most \<open>m / 2^53\<close>;
  and the label is determined by \<open>m\<close>, not by the reported score, with inclusive lower
  bounds: \<open>m \<ge> 0.75\<close> yields supported, \<open>0.45 \<le> m < 0.75\<close> yields weak, \<open>m < 0.45\<close> yields
  unsupported.
\<close>

theorem verifyClaims_score_range_label:
  assumes "r \<in> set (verifyClaims createId claims srcs)"
  shows "0 \<le> score r \<and> score r \<le> 1
    \<and> (\<exists>n :: int. score r = of_int n / 100
          \<and> of_int n - 1 / 2 \<le> 100 * to_double (max_best_overlap (claim r) srcs)
          \<and> 100 * to_double (max_best_overlap (claim r) srcs) < of_int n + 1 / 2)
    \<and> \<bar>to_double (max_best_overlap (claim r) srcs) - max_best_overlap (claim r) srcs\<bar>
          \<le> max_best_overlap (claim r) srcs / 2 ^ 53
    \<and> (label r = Supported) = (75 / 100 \<le> max_best_overlap (claim r) srcs)
    \<and> (label r = Weak) =
        (45 / 100 \<le> max_best_overlap (claim r) srcs \<and> max_best_overlap (claim r) srcs < 75 / 100)
    \<and> (label r = Unsupported) = (max_best_overlap (claim r) srcs < 45 / 100)"
proof -
  let ?m = "max_best_overlap (claim r) srcs"
  have range: "0 \<le> ?m" "?m \<le> 1"
    using max_best_overlap_range [of "claim r" srcs] by auto
  have sc: "score r = toFixed2 ?m" and lb: "label r = labelFromScore ?m"
    using verifyClaim_fields [OF assms] by auto
  have s1: "0 \<le> score r \<and> score r \<le> 1"
    unfolding sc using range by (intro toFixed2_range)
  have s2: "\<exists>n :: int. score r = of_int n / 100
      \<and> of_int n - 1 / 2 \<le> 100 * to_double ?m \<and> 100 * to_double ?m < of_int n + 1 / 2"
    unfolding sc by (rule toFixed2_nearest)
  have s3: "\<bar>to_double ?m - ?m\<bar> \<le> ?m / 2 ^ 53"
    using range by (intro to_double_error)
  have l1: "(label r = Supported) = (75 / 100 \<le> ?m)"
    unfolding lb by (simp add: labelFromScore_def)
  have l2: "(label r = Weak) = (45 / 100 \<le> ?m \<and> ?m < 75 / 100)"
    unfolding lb by (auto simp: labelFromScore_def)
  have l3: "(label r = Unsupported) = (?m < 45 / 100)"
    unfolding lb by (auto simp: labelFromScore_def)
  show ?thesis
    using s1 s2 s3 l1 l2 l3 by blast
qed

theorem verifyClaims_score_range_label_witness:
  "(let r = hd (verifyClaims (\<lambda>k. ''c1'') [claim29] [source13])
    in 0 \<le> score r \<and> score r \<le> 1 \<and> label r = Unsupported
       \<and> max_best_overlap (claim r) [source13] < 45 / 100)"
proof -
  let ?r = "hd (verifyClaims (\<lambda>k. ''c1'') [claim29] [source13])"
  have mem: "?r \<in> set (verifyClaims (\<lambda>k. ''c1'') [claim29] [source13])"
    by (simp add: verifyClaims_claim29)
  have "label ?r = Unsupported"
    by (simp add: verifyClaims_claim29)
  then show ?thesis
    using verifyClaims_score_range_label [OF mem] by (simp add: Let_def)
qed

text \<open>
  C10: for every claim record returned by verifyClaims, with \<open>m\<close> the largest per-source
  best overlap and \<open>d\<close> the double that holds it (\<open>d\<close> differs from \<open>m\<close> by at most
  \<open>m / 2^53\<close>), the reported score is \<open>d\<close> rounded to two decimals, that is \<open>n / 100\<close> for the
  integer \<open>n\<close> with \<open>n - 1/2 \<le> 100 d < n + 1/2\<close>, and the label is computed from the
  unrounded \<open>m\<close>; there are inputs whose reported score and reported label fall in
  different bands (the record of the 29-token claim: 13/29 is reported as 0.45 with the
  label unsupported), and an unrounded maximum of 0.449 is reported as 0.45 with the label
  unsupported, where 0.45 itself is weak.
\<close>

theorem verifyClaims_rounds_score_not_label:
  "(\<forall>r \<in> set (verifyClaims createId claims srcs).
      score r = toFixed2 (max_best_overlap (claim r) srcs)
      \<and> (\<exists>n :: int. score r = of_int n / 100
            \<and> of_int n - 1 / 2 \<le> 100 * to_double (max_best_overlap (claim r) srcs)
            \<and> 100 * to_double (max_best_overlap (claim r) srcs) < of_int n + 1 / 2)
      \<and> \<bar>to_double (max_best_overlap (claim r) srcs) - max_best_overlap (claim r) srcs\<bar>
            \<le> max_best_overlap (claim r) srcs / 2 ^ 53
      \<and> label r = labelFromScore (max_best_overlap (claim r) srcs))
   \<and> (\<exists>r \<in> set (verifyClaims createId [claim29] [source13]).
        label r \<noteq> labelFromScore (score r))
   \<and> toFixed2 (449 / 1000) = 45 / 100
   \<and> labelFromScore (449 / 1000) = Unsupported
   \<and> labelFromScore (toFixed2 (449 / 1000)) = Weak"
proof -
  have all: "\<forall>r \<in> set (verifyClaims createId claims srcs).
      score r = toFixed2 (max_best_overlap (claim r) srcs)
      \<and> (\<exists>n :: int. score r = of_int n / 100
            \<and> of_int n - 1 / 2 \<le> 100 * to_double (max_best_overlap (claim r) srcs)
            \<and> 100 * to_double (max_best_overlap (claim r) srcs) < of_int n + 1 / 2)
      \<and> \<bar>to_double (max_best_overlap (claim r) srcs) - max_best_overlap (claim r) srcs\<bar>
            \<le> max_best_overlap (claim r) srcs / 2 ^ 53
      \<and> label r = labelFromScore (max_best_overlap (claim r) srcs)"
  proof
    fix r assume mem: "r \<in> set (verifyClaims createId claims srcs)"
    let ?m = "max_best_overlap (claim r) srcs"
    have sc: "score r = toFixed2 ?m" and lb: "label r = labelFromScore ?m"
      using verifyClaim_fields [OF mem] by auto
    have range: "0 \<le> ?m" "?m \<le> 1"
      using max_best_overlap_range [of "claim r" srcs] by auto
    have s2: "\<exists>n :: int. score r = of_int n / 100
        \<and> of_int n - 1 / 2 \<le> 100 * to_double ?m \<and> 100 * to_double ?m < of_int n + 1 / 2"
      unfolding sc by (rule toFixed2_nearest)
    have s3: "\<bar>to_double ?m - ?m\<bar> \<le> ?m / 2 ^ 53"
      using range by (intro to_double_error)
    show "score r = toFixed2 ?m
      \<and> (\<exists>n :: int. score r = of_int n / 100
            \<and> of_int n - 1 / 2 \<le> 100 * to_double ?m \<and> 100 * to_double ?m < of_int n + 1 / 2)
      \<and> \<bar>to_double ?m - ?m\<bar> \<le> ?m / 2 ^ 53
      \<and> label r = labelFromScore ?m"
      using sc s2 s3 lb by blast
  qed
  have ex: "\<exists>r \<in> set (verifyClaims createId [claim29] [source13]).
      label r \<noteq> labelFromScore (score r)"
    by (simp add: verifyClaims_claim29 labelFromScore_def)
  have u: "labelFromScore (449 / 1000) = Unsupported"
    by (simp add: labelFromScore_def)
  have w: "labelFromScore (toFixed2 (449 / 1000)) = Weak"
    unfolding toFixed2_449 by (simp add: labelFromScore_def)
  show ?thesis using all ex toFixed2_449 u w by blast
qed

theorem verifyClaims_rounds_score_not_label_witness:
  "(let r = hd (verifyClaims (\<lambda>k. ''c1'') [claim29] [source13])
    in score r = toFixed2 (max_best_overlap claim29 [source13])
       \<and> label r = labelFromScore (max_best_overlap claim29 [source13])
       \<and> score r = 45 / 100 \<and> label r = Unsupported)"
proof -
  let ?r = "hd (verifyClaims (\<lambda>k. ''c1'') [claim29] [source13])"
  have mem: "?r \<in> set (verifyClaims (\<lambda>k. ''c1'') [claim29] [source13])"
    by (simp add: verifyClaims_claim29)
  have c: "claim ?r = claim29" "score ?r = 45 / 100" "label ?r = Unsupported"
    by (simp_all add: verifyClaims_claim29)
  from verifyClaims_rounds_score_not_label [of "\<lambda>k. ''c1''" "[claim29]" "[source13]"]
  have "score ?r = toFixed2 (max_best_overlap (claim ?r) [source13])
      \<and> label ?r = labelFromScore (max_best_overlap (claim ?r) [source13])"
    using mem by blast
  then show ?thesis using c by (simp add: Let_def)
qed

text \<open>
  The rounding follows the double, not the quotient: 7/40 is held by a double just below
  0.175 and is reported as 0.17, while 1/8, held exactly, is reported as 0.13.
\<close>

lemma toFixed2_follows_double:
  "toFixed2 (7 / 40) = 17 / 100 \<and> toFixed2 (1 / 8) = 13 / 100"
  using toFixed2_7_40 toFixed2_eighth by simp

section \<open>Properties of the researcher\<close>

subsection \<open>Deduplication by content hash\<close>

lemma dedup_loop_hashes:
  "distinct (map contentHash (dedup_loop seen xs)) \<and>
   contentHash ` set (dedup_loop seen xs) \<inter> seen = {}"
  by (induction xs arbitrary: seen) auto

lemma filter_upt_Suc:
  "filter P [0..<Suc n] = (if P 0 then [0] else []) @ map Suc (filter (\<lambda>i. P (Suc i)) [0..<n])"
proof -
  have "[0..<Suc n] = 0 # [Suc 0..<Suc n]"
    by (rule upt_conv_Cons) simp
  also have "[Suc 0..<Suc n] = map Suc [0..<n]"
    by (simp only: map_Suc_upt)
  finally have "[0..<Suc n] = 0 # map Suc [0..<n]" .
  then show ?thesis
    by (simp only: filter.simps filter_map comp_def) simp
qed

lemma dedup_loop_first:
  "dedup_loop seen xs =
     map (\<lambda>i. xs ! i)
       (filter (\<lambda>i. contentHash (xs ! i) \<notin> seen \<union> contentHash ` set (take i xs))
          [0..<length xs])"
proof (induction xs arbitrary: seen)
  case Nil
  then show ?case by simp
next
  case (Cons x xs)
  let ?P = "\<lambda>sn ys i. contentHash (ys ! i) \<notin> sn \<union> contentHash ` set (take i ys)"
  have shift: "?P seen (x # xs) (Suc i) = ?P (insert (contentHash x) seen) xs i" for i
    by simp
  have rhs: "map (\<lambda>i. (x # xs) ! i) (filter (?P seen (x # xs)) [0..<length (x # xs)]) =
      (if contentHash x \<notin> seen then [x] else [])
        @ map (\<lambda>i. xs ! i) (filter (?P (insert (contentHash x) seen) xs) [0..<length xs])"
  proof -
    have len: "length (x # xs) = Suc (length xs)" by simp
    show ?thesis
      unfolding len by (subst filter_upt_Suc) (simp add: shift comp_def del: upt_Suc)
  qed
  show ?case
  proof (cases "contentHash x \<in> seen")
    case True
    then have "insert (contentHash x) seen = seen" by auto
    then show ?thesis
      unfolding rhs using True Cons.IH [of seen] by simp
  next
    case False
    then show ?thesis
      unfolding rhs using Cons.IH [of "insert (contentHash x) seen"] by simp
  qed
qed

lemma dedup_loop_first_by_hash: "dedup_loop {} xs = first_by_hash xs"
  by (simp add: dedup_loop_first first_by_hash_def)



subsection \<open>No evidence is collected when maxSources is not positive\<close>







subsection \<open>The sources research returns\<close>


subsection \<open>Concrete runs\<close>

lemma lower_content_type:
  "toLowerCase ''text/html; charset=utf-8'' = ''text/html; charset=utf-8''"
  by code_simp

lemma page_ok_fields:
  "status (page_ok u) = 200" "html (page_ok u) \<noteq> []"
  "str_includes (toLowerCase (contentType (page_ok u))) ''text/html''"
  by (simp_all add: page_ok_def lower_content_type)

lemma doc_of_fields:
  "doc_text (doc_of h) \<noteq> []" "length (doc_text (doc_of h)) = 300" "doc_contentHash (doc_of h) = h"
  by (simp_all add: doc_of_def)

lemma domain_a: "domainOf host_simple (link result_a) = Some ''a.org''"
  by (simp add: domainOf_def host_simple_def strip_www_def result_a_def)

lemma domain_b: "domainOf host_simple (link result_b) = Some ''b.org''"
  by (simp add: domainOf_def host_simple_def strip_www_def result_b_def)

lemma snippet_ab:
  "snippet result_a \<noteq> []" "\<not> length (snippet result_a) < 30"
  "snippet result_b \<noteq> []" "\<not> length (snippet result_b) < 30"
  by (simp_all add: result_a_def result_b_def snippet_ok_def)

lemma cand_urls: "cand_url cand_a = link result_a" "cand_url cand_b = link result_b"
  by (simp_all add: cand_a_def cand_b_def)

lemma select_a: "0 < mx \<Longrightarrow> selectUrls host_simple [result_a] mx = [cand_a]"
  by (simp add: selectUrls_def domain_a snippet_ab cand_a_def Let_def)

lemma select_b: "0 < mx \<Longrightarrow> selectUrls host_simple [result_b] mx = [cand_b]"
  by (simp add: selectUrls_def domain_b snippet_ab cand_b_def Let_def)

lemma select_none: "selectUrls host_simple [] mx = []"
  by (simp add: selectUrls_def)

lemma replicate2: "replicate 2 x = [x, x]"
  by (simp add: numeral_2_eq_2)

lemma contentHash_evidence_of: "contentHash (evidence_of cur d doc) = doc_contentHash doc"
  by (simp add: evidence_of_def)

lemma select_first:
  "select_phase env_first (chat_opts md) [''q''] [] [] =
     Inr ([Search ''q'' 1, Select [cand_a]], [cand_a])"
  by (simp add: env_first_def chat_opts_def select_a Let_def)

lemma fetch_first:
  "fetch_phase env_first (chat_opts md) tr [cand_a] =
     \<lparr>idx = 1, sources = [evidence_of cand_a ''a.org'' (doc_of ''h1'')],
      trace = tr @ [Fetch (link result_a) 200], workers = [Finished]\<rparr>"
  by (simp add: fetch_phase_def env_first_def chat_opts_def requiredSources_def step_def
      worker_at_def loopHead_def afterFetch_def afterExtract_def finish_def enoughEvidence_def
      page_ok_fields doc_of_fields domain_a cand_urls Let_def)

lemma research_env_first:
  "research env_first [''q''] (chat_opts md) =
     Returns \<lparr>res_trace = [Search ''q'' 1, Select [cand_a], Fetch (link result_a) 200, Timing 500],
              res_sources = [evidence_of cand_a ''a.org'' (doc_of ''h1'')]\<rparr>"
proof -
  have t: "t_end env_first - t_start env_first = 500" "maxSources (chat_opts md) = 6"
    by (simp_all add: env_first_def chat_opts_def)
  show ?thesis
    unfolding research_def select_first
    by (simp add: fetch_first slice0_def t)
qed

lemma select_second:
  "select_phase env_second (chat_opts Reliability)
     [''q'', ''q definition'', ''q authoritative source''] [] [] =
   Inr ([Search ''q'' 1, Select [cand_a], Search ''q definition'' 1, Select [cand_b],
         Search ''q authoritative source'' 0, Select []], [cand_a, cand_b])"
  by (simp add: env_second_def chat_opts_def select_a select_b select_none Let_def)

lemma fetch_second:
  "fetch_phase env_second (chat_opts Reliability) tr [cand_a, cand_b] =
     \<lparr>idx = 2, sources = [evidence_of cand_b ''b.org'' (doc_of ''h2''),
                           evidence_of cand_a ''a.org'' (doc_of ''h1'')],
      trace = tr @ [Fetch (link result_b) 200, Fetch (link result_a) 200],
      workers = [Finished, Finished]\<rparr>"
  by (simp add: fetch_phase_def env_second_def chat_opts_def requiredSources_def
      step_def worker_at_def loopHead_def afterFetch_def afterExtract_def finish_def
      enoughEvidence_def page_ok_fields doc_of_fields domain_a domain_b cand_urls
      Let_def replicate2)

lemma research_env_second:
  "research env_second [''q'', ''q definition'', ''q authoritative source'']
     (chat_opts Reliability) =
   Returns \<lparr>res_trace = [Search ''q'' 1, Select [cand_a], Search ''q definition'' 1,
              Select [cand_b], Search ''q authoritative source'' 0, Select [],
              Fetch (link result_b) 200, Fetch (link result_a) 200, Timing 500],
            res_sources = [evidence_of cand_b ''b.org'' (doc_of ''h2''),
                           evidence_of cand_a ''a.org'' (doc_of ''h1'')]\<rparr>"
proof -
  have t: "t_end env_second - t_start env_second = 500" "maxSources (chat_opts Reliability) = 6"
    by (simp_all add: env_second_def chat_opts_def)
  show ?thesis
    unfolding research_def select_second
    by (simp add: fetch_second slice0_def contentHash_evidence_of doc_of_fields t)
qed

subsection \<open>The sources research returns, continued\<close>




subsection \<open>selectUrls\<close>

lemma selectUrls_loop_inv:
  assumes "set (map (sel_domain hn) selected) = Some ` seen"
      and "distinct (map (sel_domain hn) selected)"
      and "\<forall>c \<in> set selected. \<exists>r \<in> set results. link r = cand_url c \<and> 30 \<le> length (snippet r)"
      and "set rs \<subseteq> set results"
  shows "distinct (map (sel_domain hn) (selectUrls_loop hn mx rs seen selected))
       \<and> None \<notin> set (map (sel_domain hn) (selectUrls_loop hn mx rs seen selected))
       \<and> (\<forall>c \<in> set (selectUrls_loop hn mx rs seen selected).
             \<exists>r \<in> set results. link r = cand_url c \<and> 30 \<le> length (snippet r))"
  using assms
proof (induction rs arbitrary: seen selected)
  case Nil
  then show ?case by auto
next
  case (Cons r rs)
  have rs: "set rs \<subseteq> set results" and rin: "r \<in> set results"
    using Cons.prems(4) by auto
  note IH = Cons.IH [OF _ _ _ rs]
  show ?case
  proof (cases "domainOf hn (link r)")
    case None
    then show ?thesis using IH [OF Cons.prems(1-3)] by simp
  next
    case (Some d)
    show ?thesis
    proof (cases "d \<in> seen \<or> snippet r = [] \<or> length (snippet r) < 30")
      case True
      then show ?thesis using Some IH [OF Cons.prems(1-3)] by auto
    next
      case False
      let ?c = "\<lparr>cand_url = link r, reason = select_reason\<rparr>"
      let ?sel = "selected @ [?c]"
      have dc: "sel_domain hn ?c = Some d"
        using Some by (simp add: sel_domain_def)
      have a1: "set (map (sel_domain hn) ?sel) = Some ` insert d seen"
        using Cons.prems(1) dc by auto
      have "Some d \<notin> set (map (sel_domain hn) selected)"
        using Cons.prems(1) False by auto
      then have a2: "distinct (map (sel_domain hn) ?sel)"
        using Cons.prems(2) dc by simp
      have a3: "\<forall>c \<in> set ?sel. \<exists>r \<in> set results. link r = cand_url c \<and> 30 \<le> length (snippet r)"
        using Cons.prems(3) rin False by auto
      have here: "distinct (map (sel_domain hn) ?sel) \<and> None \<notin> set (map (sel_domain hn) ?sel)
          \<and> (\<forall>c \<in> set ?sel. \<exists>r \<in> set results. link r = cand_url c \<and> 30 \<le> length (snippet r))"
        using a1 a2 a3 by auto
      show ?thesis
      proof (cases "mx \<le> int (length ?sel)")
        case True
        then have "selectUrls_loop hn mx (r # rs) seen selected = ?sel"
          using Some False by (simp add: Let_def)
        then show ?thesis using here by simp
      next
        case nf: False
        then have "selectUrls_loop hn mx (r # rs) seen selected =
            selectUrls_loop hn mx rs (insert d seen) ?sel"
          using Some False by (simp add: Let_def)
        then show ?thesis using IH [OF a1 a2 a3] by simp
      qed
    qed
  qed
qed

lemma selectUrls_loop_length:
  "int (length (selectUrls_loop hn mx rs seen selected)) \<le> max mx (int (length selected) + 1)"
proof (induction rs arbitrary: seen selected)
  case Nil
  then show ?case by simp
next
  case (Cons r rs)
  show ?case
  proof (cases "domainOf hn (link r)")
    case None
    then show ?thesis using Cons.IH [of seen selected] by simp
  next
    case (Some d)
    show ?thesis
    proof (cases "d \<in> seen \<or> snippet r = [] \<or> length (snippet r) < 30")
      case True
      then show ?thesis using Some Cons.IH [of seen selected] by auto
    next
      case False
      let ?sel = "selected @ [\<lparr>cand_url = link r, reason = select_reason\<rparr>]"
      show ?thesis
      proof (cases "mx \<le> int (length ?sel)")
        case True
        then show ?thesis using Some False by (simp add: Let_def)
      next
        case nf: False
        then have "selectUrls_loop hn mx (r # rs) seen selected =
            selectUrls_loop hn mx rs (insert d seen) ?sel"
          using Some False by (simp add: Let_def)
        moreover have "int (length (selectUrls_loop hn mx rs (insert d seen) ?sel))
            \<le> max mx (int (length ?sel) + 1)"
          by (rule Cons.IH)
        ultimately show ?thesis using nf by simp
      qed
    qed
  qed
qed

text \<open>
  What holds of every selection round: the selected URLs have pairwise different
  normalized domains, each comes from a result whose snippet has at least 30 characters,
  and there are at most \<open>max(1, perIntentUrls)\<close> of them.
\<close>

lemma selectUrls_properties:
  "distinct (map (sel_domain hn) (selectUrls hn results mx))
   \<and> None \<notin> set (map (sel_domain hn) (selectUrls hn results mx))
   \<and> (\<forall>c \<in> set (selectUrls hn results mx).
         \<exists>r \<in> set results. link r = cand_url c \<and> 30 \<le> length (snippet r))
   \<and> int (length (selectUrls hn results mx)) \<le> max 1 mx"
proof -
  have "int (length (selectUrls hn results mx)) \<le> max 1 mx"
    using selectUrls_loop_length [of hn mx results "{}" "[]"] by (simp add: selectUrls_def)
  moreover have "distinct (map (sel_domain hn) (selectUrls hn results mx))
   \<and> None \<notin> set (map (sel_domain hn) (selectUrls hn results mx))
   \<and> (\<forall>c \<in> set (selectUrls hn results mx).
         \<exists>r \<in> set results. link r = cand_url c \<and> 30 \<le> length (snippet r))"
    unfolding selectUrls_def by (rule selectUrls_loop_inv) auto
  ultimately show ?thesis by blast
qed


subsection \<open>Stop conditions of the fetch phase\<close>

lemma finish_fields: "sources (finish w s) = sources s" "idx (finish w s) = idx s"
  by (simp_all add: finish_def)

lemma loopHead_sources: "sources (loopHead tasks opts dl now w s) = sources s"
  by (simp add: loopHead_def finish_def)

lemma loopHead_idx:
  "dl < now \<or> enoughEvidence opts (sources s) \<Longrightarrow> idx (loopHead tasks opts dl now w s) = idx s"
  by (auto simp: loopHead_def finish_def)

lemma step_sources_append: "\<exists>new. sources (step hn tasks opts dl s ev) = sources s @ new"
  by (cases ev)
    (auto simp: step_def afterFetch_def afterExtract_def loopHead_sources finish_def Let_def
      split: wstate.splits option.splits)

lemma step_idx_stop:
  assumes "dl < event_time ev \<or> enoughEvidence opts (sources (step hn tasks opts dl s ev))"
  shows "idx (step hn tasks opts dl s ev) = idx s"
proof (cases ev)
  case (Go w now)
  then show ?thesis
    using assms
    by (auto simp: step_def loopHead_sources loopHead_idx split: wstate.splits)
next
  case (FetchDone w now page)
  then show ?thesis
    using assms
    by (auto simp: step_def afterFetch_def Let_def loopHead_sources loopHead_idx finish_def
        split: wstate.splits)
next
  case (ExtractDone w now res)
  then show ?thesis
    using assms
    by (auto simp: step_def afterExtract_def loopHead_sources loopHead_idx
        split: wstate.splits option.splits)
qed

lemma total_chars_mono:
  fixes xs ys :: "EvidenceSource list"
  shows "foldl (\<lambda>a s. a + length (body s)) a xs \<le> foldl (\<lambda>a s. a + length (body s)) a (xs @ ys)"
proof -
  have "a \<le> foldl (\<lambda>a s. a + length (body s)) a zs" for a :: nat and zs :: "EvidenceSource list"
  proof (induction zs arbitrary: a)
    case Nil
    then show ?case by simp
  next
    case (Cons z zs)
    have "a \<le> a + length (body z)" by simp
    also have "\<dots> \<le> foldl (\<lambda>a s. a + length (body s)) (a + length (body z)) zs"
      by (rule Cons.IH)
    finally show ?case by simp
  qed
  from this [of "foldl (\<lambda>a s. a + length (body s)) a xs" ys]
  show ?thesis unfolding foldl_append .
qed

lemma enoughEvidence_append:
  assumes "enoughEvidence opts xs"
  shows "enoughEvidence opts (xs @ ys)"
proof (cases "maxSources opts \<le> int (length xs)")
  case True
  then show ?thesis by (simp add: enoughEvidence_def)
next
  case False
  then have "minSources opts \<le> int (length xs)"
    and "2500 \<le> foldl (\<lambda>a s. a + length (body s)) 0 xs"
    using assms by (simp_all add: enoughEvidence_def Let_def)
  moreover have "foldl (\<lambda>a s. a + length (body s)) 0 xs
      \<le> foldl (\<lambda>a s. a + length (body s)) 0 (xs @ ys)"
    by (rule total_chars_mono)
  ultimately show ?thesis
    by (simp add: enoughEvidence_def Let_def del: foldl_append)
qed

lemma run_sources_append:
  "\<exists>new. sources (foldl (step hn tasks opts dl) s evs) = sources s @ new"
proof (induction evs arbitrary: s)
  case Nil
  then show ?case by simp
next
  case (Cons ev evs)
  obtain n1 where n1: "sources (step hn tasks opts dl s ev) = sources s @ n1"
    using step_sources_append by blast
  obtain n2 where "sources (foldl (step hn tasks opts dl) (step hn tasks opts dl s ev) evs) =
      sources (step hn tasks opts dl s ev) @ n2"
    using Cons.IH by blast
  then show ?case using n1 by simp
qed

lemma run_idx_stop:
  assumes "list_all (\<lambda>ev. dl < event_time ev) evs \<or> enoughEvidence opts (sources s)"
  shows "idx (foldl (step hn tasks opts dl) s evs) = idx s"
  using assms
proof (induction evs arbitrary: s)
  case Nil
  then show ?case by simp
next
  case (Cons ev evs)
  let ?s = "step hn tasks opts dl s ev"
  obtain new where new: "sources ?s = sources s @ new"
    using step_sources_append by blast
  have stop: "dl < event_time ev \<or> enoughEvidence opts (sources ?s)"
    using Cons.prems new enoughEvidence_append [of opts "sources s" new] by auto
  have next_stop: "list_all (\<lambda>ev. dl < event_time ev) evs \<or> enoughEvidence opts (sources ?s)"
    using Cons.prems new enoughEvidence_append [of opts "sources s" new] by auto
  have "idx (foldl (step hn tasks opts dl) ?s evs) = idx ?s"
    using next_stop by (rule Cons.IH)
  also have "\<dots> = idx s"
    using stop by (rule step_idx_stop)
  finally show ?case by simp
qed

lemma worker_at_length: "worker_at s w \<noteq> Finished \<Longrightarrow> w < length (workers s)"
  by (auto simp: worker_at_def split: if_splits)

lemma step_fetch_late:
  assumes "worker_at s w = Fetching cur" "dl < now"
  shows "step hn tasks opts dl s (FetchDone w now page) =
           finish w (s\<lparr>trace := trace s @ [Fetch (cand_url cur) (status page)]\<rparr>)"
  using assms by (simp add: step_def afterFetch_def Let_def)

lemma step_fetch_in_time:
  assumes "worker_at s w = Fetching cur" "now \<le> dl" "200 \<le> status page" "status page < 300"
    "str_includes (toLowerCase (contentType page)) ''text/html''" "html page \<noteq> []"
  shows "worker_at (step hn tasks opts dl s (FetchDone w now page)) w = Extracting cur
       \<and> sources (step hn tasks opts dl s (FetchDone w now page)) = sources s"
proof -
  have "w < length (workers s)"
    using assms(1) by (intro worker_at_length) simp
  then show ?thesis
    using assms by (simp add: step_def afterFetch_def Let_def worker_at_def)
qed

lemma step_extract_kept:
  assumes "worker_at s w = Extracting cur" "doc_text doc \<noteq> []" "300 \<le> length (doc_text doc)"
    "domainOf hn (cand_url cur) = Some d"
  shows "sources (step hn tasks opts dl s (ExtractDone w now (Some doc))) =
           sources s @ [evidence_of cur d doc]"
  using assms by (simp add: step_def afterExtract_def loopHead_sources)

lemma select_one:
  "select_phase (env_fetch_at t) (chat_opts md) [''q''] [] [] =
     Inr ([Search ''q'' 1, Select [cand_a]], [cand_a])"
  by (simp add: env_fetch_at_def chat_opts_def select_a Let_def)

lemma fetch_late:
  "fetch_phase (env_fetch_at 8001) (chat_opts md) tr [cand_a] =
     \<lparr>idx = 1, sources = [], trace = tr @ [Fetch (link result_a) 200], workers = [Finished]\<rparr>"
  by (simp add: fetch_phase_def env_fetch_at_def chat_opts_def requiredSources_def step_def
      worker_at_def loopHead_def afterFetch_def afterExtract_def finish_def enoughEvidence_def
      page_ok_fields doc_of_fields domain_a cand_urls Let_def)

lemma fetch_in_time:
  "fetch_phase (env_fetch_at 8000) (chat_opts md) tr [cand_a] =
     \<lparr>idx = 1, sources = [evidence_of cand_a ''a.org'' (doc_of ''h1'')],
      trace = tr @ [Fetch (link result_a) 200], workers = [Finished]\<rparr>"
  by (simp add: fetch_phase_def env_fetch_at_def chat_opts_def requiredSources_def step_def
      worker_at_def loopHead_def afterFetch_def afterExtract_def finish_def enoughEvidence_def
      page_ok_fields doc_of_fields domain_a cand_urls Let_def)

text \<open>
  C6, as stated, fails for the deadline. The one task below is taken at time 1000, the
  deadline is at 8000. When its fetch returns a good page at 8001, the worker returns at
  once (the test \<open>nowMs() > deadline\<close> after \<open>fetchHtml\<close>): the page is never extracted and
  the result has no source, although extraction would have given a good document. When
  the same fetch returns at 8000, the document is extracted at 8100, after the deadline,
  and kept.
\<close>

theorem research_drops_fetch_finished_late:
  "research (env_fetch_at 8001) [''q''] (chat_opts Normal) =
     Returns \<lparr>res_trace = [Search ''q'' 1, Select [cand_a], Fetch (link result_a) 200,
                            Timing 7101],
              res_sources = []\<rparr>
   \<and> research (env_fetch_at 8000) [''q''] (chat_opts Normal) =
     Returns \<lparr>res_trace = [Search ''q'' 1, Select [cand_a], Fetch (link result_a) 200,
                            Timing 7100],
              res_sources = [evidence_of cand_a ''a.org'' (doc_of ''h1'')]\<rparr>
   \<and> t_start (env_fetch_at 8001) + budgetMs (chat_opts Normal) = 8000
   \<and> take 2 (schedule (env_fetch_at 8001)) =
       [Go 0 1000, FetchDone 0 8001 (page_ok (link result_a))]"
proof -
  have t: "t_end (env_fetch_at 8001) - t_start (env_fetch_at 8001) = 7101"
    "t_end (env_fetch_at 8000) - t_start (env_fetch_at 8000) = 7100"
    "maxSources (chat_opts Normal) = 6"
    "t_start (env_fetch_at 8001) + budgetMs (chat_opts Normal) = 8000"
    "take 2 (schedule (env_fetch_at 8001)) =
       [Go 0 1000, FetchDone 0 8001 (page_ok (link result_a))]"
    by (simp_all add: env_fetch_at_def chat_opts_def)
  have late: "research (env_fetch_at 8001) [''q''] (chat_opts Normal) =
     Returns \<lparr>res_trace = [Search ''q'' 1, Select [cand_a], Fetch (link result_a) 200,
                            Timing 7101],
              res_sources = []\<rparr>"
    unfolding research_def select_one by (simp add: fetch_late slice0_def t)
  have in_time: "research (env_fetch_at 8000) [''q''] (chat_opts Normal) =
     Returns \<lparr>res_trace = [Search ''q'' 1, Select [cand_a], Fetch (link result_a) 200,
                            Timing 7100],
              res_sources = [evidence_of cand_a ''a.org'' (doc_of ''h1'')]\<rparr>"
    unfolding research_def select_one by (simp add: fetch_in_time slice0_def t)
  show ?thesis
    using late in_time t(4,5) by (intro conjI)
qed

text \<open>
  C6, amended: in the fetch phase, once every later clock reading is past the deadline
  (start + budgetMs) or the sufficiency predicate holds, no worker takes a new task, and
  the evidence collected so far is never removed. A task in flight is not cancelled, but
  what becomes of it depends on the deadline: when its fetch returns after the deadline,
  the worker returns without extracting, and the task adds no evidence; when its fetch
  returns a good page by the deadline, the page goes to extraction whether or not the
  sufficiency predicate holds by then; and the good document of an extraction that
  returns is appended to the evidence whatever the clock and the sufficiency predicate
  say.
\<close>

theorem fetch_phase_stop_conditions:
  "(list_all (\<lambda>ev. dl < event_time ev) evs \<or> enoughEvidence opts (sources s) \<longrightarrow>
      idx (foldl (step hn tasks opts dl) s evs) = idx s)
   \<and> (\<exists>new. sources (foldl (step hn tasks opts dl) s evs) = sources s @ new)
   \<and> (worker_at s w = Fetching cur \<and> dl < now \<longrightarrow>
        sources (step hn tasks opts dl s (FetchDone w now page)) = sources s
        \<and> worker_at (step hn tasks opts dl s (FetchDone w now page)) w = Finished)
   \<and> (worker_at s w = Fetching cur \<and> now \<le> dl \<and> 200 \<le> status page \<and> status page < 300
        \<and> str_includes (toLowerCase (contentType page)) ''text/html'' \<and> html page \<noteq> [] \<longrightarrow>
        worker_at (step hn tasks opts dl s (FetchDone w now page)) w = Extracting cur)
   \<and> (worker_at s w = Extracting cur \<and> doc_text doc \<noteq> [] \<and> 300 \<le> length (doc_text doc)
        \<and> domainOf hn (cand_url cur) = Some d \<longrightarrow>
        sources (step hn tasks opts dl s (ExtractDone w now (Some doc))) =
          sources s @ [evidence_of cur d doc])"
proof (intro conjI impI)
  assume "list_all (\<lambda>ev. dl < event_time ev) evs \<or> enoughEvidence opts (sources s)"
  then show "idx (foldl (step hn tasks opts dl) s evs) = idx s"
    by (rule run_idx_stop)
next
  show "\<exists>new. sources (foldl (step hn tasks opts dl) s evs) = sources s @ new"
    by (rule run_sources_append)
next
  assume a: "worker_at s w = Fetching cur \<and> dl < now"
  then have l: "w < length (workers s)"
    by (intro worker_at_length) simp
  have e: "step hn tasks opts dl s (FetchDone w now page) =
      finish w (s\<lparr>trace := trace s @ [Fetch (cand_url cur) (status page)]\<rparr>)"
    using a by (intro step_fetch_late) auto
  show "sources (step hn tasks opts dl s (FetchDone w now page)) = sources s"
    unfolding e by (simp add: finish_def)
  show "worker_at (step hn tasks opts dl s (FetchDone w now page)) w = Finished"
    unfolding e using l by (simp add: finish_def worker_at_def)
next
  assume "worker_at s w = Fetching cur \<and> now \<le> dl \<and> 200 \<le> status page \<and> status page < 300
        \<and> str_includes (toLowerCase (contentType page)) ''text/html'' \<and> html page \<noteq> []"
  then show "worker_at (step hn tasks opts dl s (FetchDone w now page)) w = Extracting cur"
    using step_fetch_in_time [of s w cur now dl page hn tasks opts] by blast
next
  assume "worker_at s w = Extracting cur \<and> doc_text doc \<noteq> [] \<and> 300 \<le> length (doc_text doc)
        \<and> domainOf hn (cand_url cur) = Some d"
  then show "sources (step hn tasks opts dl s (ExtractDone w now (Some doc))) =
          sources s @ [evidence_of cur d doc]"
    using step_extract_kept [of s w cur doc hn d tasks opts dl now] by blast
qed

theorem fetch_phase_stop_conditions_witness:
  "idx (foldl (step host_simple [cand_a, cand_b] (chat_opts Normal) 8000)
         \<lparr>idx = 1, sources = [], trace = [], workers = [Fetching cand_a, Ready]\<rparr>
         [Go 1 8001]) = 1
   \<and> worker_at (step host_simple [cand_a, cand_b] (chat_opts Normal) 8000
         \<lparr>idx = 1, sources = [], trace = [], workers = [Fetching cand_a, Ready]\<rparr>
         (FetchDone 0 8001 (page_ok (link result_a)))) 0 = Finished
   \<and> worker_at (step host_simple [cand_a, cand_b] (chat_opts Normal) 8000
         \<lparr>idx = 1, sources = [], trace = [], workers = [Fetching cand_a, Ready]\<rparr>
         (FetchDone 0 8000 (page_ok (link result_a)))) 0 = Extracting cand_a
   \<and> sources (step host_simple [cand_a, cand_b] (chat_opts Normal) 8000
         \<lparr>idx = 1, sources = [], trace = [], workers = [Extracting cand_a, Ready]\<rparr>
         (ExtractDone 0 9000 (Some (doc_of ''h1'')))) = [evidence_of cand_a ''a.org'' (doc_of ''h1'')]"
proof -
  let ?s = "\<lparr>idx = 1, sources = [], trace = [], workers = [Fetching cand_a, Ready]\<rparr>"
  let ?s' = "\<lparr>idx = 1, sources = [], trace = [], workers = [Extracting cand_a, Ready]\<rparr>"
  have w: "worker_at ?s 0 = Fetching cand_a" "worker_at ?s' 0 = Extracting cand_a"
    by (simp_all add: worker_at_def)
  have late: "list_all (\<lambda>ev. 8000 < event_time ev) [Go 1 8001]"
    by simp
  have c1: "idx (foldl (step host_simple [cand_a, cand_b] (chat_opts Normal) 8000) ?s [Go 1 8001]) = 1"
    using fetch_phase_stop_conditions
      [of 8000 "[Go 1 8001]" "chat_opts Normal" ?s host_simple "[cand_a, cand_b]"] late
    by simp
  have c2: "worker_at (step host_simple [cand_a, cand_b] (chat_opts Normal) 8000 ?s
         (FetchDone 0 8001 (page_ok (link result_a)))) 0 = Finished"
    using fetch_phase_stop_conditions
      [of 8000 "[]" "chat_opts Normal" ?s host_simple "[cand_a, cand_b]" 0 cand_a 8001
        "page_ok (link result_a)"] w(1)
    by simp
  have c3: "worker_at (step host_simple [cand_a, cand_b] (chat_opts Normal) 8000 ?s
         (FetchDone 0 8000 (page_ok (link result_a)))) 0 = Extracting cand_a"
    using fetch_phase_stop_conditions
      [of 8000 "[]" "chat_opts Normal" ?s host_simple "[cand_a, cand_b]" 0 cand_a 8000
        "page_ok (link result_a)"] w(1) page_ok_fields [of "link result_a"]
    by simp
  have c4: "sources (step host_simple [cand_a, cand_b] (chat_opts Normal) 8000 ?s'
         (ExtractDone 0 9000 (Some (doc_of ''h1'')))) = [evidence_of cand_a ''a.org'' (doc_of ''h1'')]"
    using fetch_phase_stop_conditions
      [of 8000 "[]" "chat_opts Normal" ?s' host_simple "[cand_a, cand_b]" 0 cand_a 9000
        "page_ok (link result_a)" "doc_of ''h1''" "''a.org''"] w(2) doc_of_fields [of "''h1''"]
      domain_a
    by (simp add: cand_urls)
  show ?thesis using c1 c2 c3 c4 by (intro conjI)
qed

subsection \<open>The widened second pass\<close>

lemma merge_loop_take:
  assumes "int (length out) < cap"
  shows "merge_loop cap xs seen out = out @ take (nat cap - length out) (dedup_loop seen xs)"
  using assms
proof (induction xs arbitrary: seen out)
  case Nil
  then show ?case by simp
next
  case (Cons x xs)
  show ?case
  proof (cases "contentHash x \<in> seen")
    case True
    then show ?thesis using Cons by simp
  next
    case False
    show ?thesis
    proof (cases "int (length (out @ [x])) \<ge> cap")
      case True
      then have "nat cap - length out = 1" using Cons.prems by auto
      then show ?thesis using False True by (simp add: Let_def)
    next
      case nf: False
      then have lt: "int (length (out @ [x])) < cap" by simp
      have pos: "nat cap - length out = Suc (nat cap - length (out @ [x]))" using lt by auto
      show ?thesis
        using False nf Cons.IH [OF lt, of "insert (contentHash x) seen"]
        by (simp add: Let_def pos)
    qed
  qed
qed

lemma mergeSourcesByHash_union: "mergeSourcesByHash a b 6 = hash_union_capped a b 6"
  using merge_loop_take [of "[]" 6 "a @ b" "{}"]
  by (simp add: mergeSourcesByHash_def hash_union_capped_def dedup_loop_first_by_hash)

lemma dedup_loop_covers:
  "contentHash ` set (dedup_loop seen xs) \<union> seen = contentHash ` set xs \<union> seen"
proof (induction xs arbitrary: seen)
  case Nil
  then show ?case by simp
next
  case (Cons x xs)
  show ?case
    using Cons.IH [of seen] Cons.IH [of "insert (contentHash x) seen"]
    by (cases "contentHash x \<in> seen") auto
qed

lemma hash_union_capped_properties:
  "distinct (map contentHash (hash_union_capped a b cap))
   \<and> length (hash_union_capped a b cap) \<le> cap
   \<and> set (map contentHash (first_by_hash (a @ b))) = set (map contentHash (a @ b))"
proof -
  have "distinct (map contentHash (first_by_hash (a @ b)))"
    using dedup_loop_hashes [of "{}" "a @ b"] by (simp add: dedup_loop_first_by_hash)
  then have "distinct (take cap (map contentHash (first_by_hash (a @ b))))"
    by (rule distinct_take)
  moreover have "set (map contentHash (first_by_hash (a @ b))) = set (map contentHash (a @ b))"
    using dedup_loop_covers [of "{}" "a @ b"] by (simp add: dedup_loop_first_by_hash image_Un)
  ultimately show ?thesis
    unfolding hash_union_capped_def take_map by (intro conjI) (simp_all add: image_Un)
qed

lemma retrieve_single_pass:
  assumes "research (ev 0) qs (chat_opts md) = Returns r1"
    and "md \<noteq> Reliability \<or> 3 \<le> length (res_sources r1)"
  shows "retrieve ev md msg qs =
           Returns \<lparr>rt_calls = [qs], rt_sources = res_sources r1,
                    rt_trace = Planner qs # res_trace r1\<rparr>"
  using assms by (auto simp: retrieve_def requiredSources_def Let_def)

text \<open>
  C7: in reliability mode, when the first retrieval pass returns fewer than 3 sources
  (and the second pass returns), the orchestrator calls research exactly twice: once with
  the planned intents and once with the planned intents followed by the two variants
  \<open><question> definition\<close> and \<open><question> authoritative source\<close>; the final source list is
  the content-hash union of the two passes, the first pass first and the first occurrence
  of every hash kept, capped at 6.
\<close>

theorem retrieve_widened_second_pass:
  assumes "research (ev 0) qs (chat_opts Reliability) = Returns r1"
    and "length (res_sources r1) < 3"
    and "research (ev 1) (qs @ [msg @ '' definition'', msg @ '' authoritative source''])
           (chat_opts Reliability) = Returns r2"
  shows "\<exists>rt. retrieve ev Reliability msg qs = Returns rt
     \<and> rt_calls rt = [qs, qs @ [msg @ '' definition'', msg @ '' authoritative source'']]
     \<and> rt_sources rt = hash_union_capped (res_sources r1) (res_sources r2) 6
     \<and> rt_sources rt = take 6 (first_by_hash (res_sources r1 @ res_sources r2))
     \<and> distinct (map contentHash (rt_sources rt))
     \<and> length (rt_sources rt) \<le> 6"
proof -
  let ?rt = "\<lparr>rt_calls = [qs, qs @ [msg @ '' definition'', msg @ '' authoritative source'']],
             rt_sources = mergeSourcesByHash (res_sources r1) (res_sources r2) 6,
             rt_trace = Planner qs # res_trace r1 @ res_trace r2\<rparr>"
  have r: "retrieve ev Reliability msg qs = Returns ?rt"
    using assms by (simp add: retrieve_def requiredSources_def Let_def)
  have u: "rt_sources ?rt = hash_union_capped (res_sources r1) (res_sources r2) 6"
    by (simp add: mergeSourcesByHash_union)
  have p: "distinct (map contentHash (hash_union_capped (res_sources r1) (res_sources r2) 6))"
    "length (hash_union_capped (res_sources r1) (res_sources r2) 6) \<le> 6"
    using hash_union_capped_properties [of "res_sources r1" "res_sources r2" 6] by simp_all
  have "rt_calls ?rt = [qs, qs @ [msg @ '' definition'', msg @ '' authoritative source'']]"
    by simp
  moreover have "rt_sources ?rt = take 6 (first_by_hash (res_sources r1 @ res_sources r2))"
    unfolding u by (simp add: hash_union_capped_def)
  moreover have "distinct (map contentHash (rt_sources ?rt))" "length (rt_sources ?rt) \<le> 6"
    unfolding u using p by simp_all
  ultimately show ?thesis
    using r u by (intro exI [of _ ?rt] conjI)
qed

theorem retrieve_widened_second_pass_witness:
  "\<exists>rt. retrieve envs_widen Reliability ''q'' [''q''] = Returns rt
     \<and> rt_calls rt = [[''q''], [''q'', ''q definition'', ''q authoritative source'']]
     \<and> rt_sources rt = hash_union_capped [evidence_of cand_a ''a.org'' (doc_of ''h1'')]
          [evidence_of cand_b ''b.org'' (doc_of ''h2''), evidence_of cand_a ''a.org'' (doc_of ''h1'')] 6"
proof -
  have e: "envs_widen 0 = env_first" "envs_widen 1 = env_second"
    by (simp_all add: envs_widen_def)
  have r1: "research (envs_widen 0) [''q''] (chat_opts Reliability) =
     Returns \<lparr>res_trace = [Search ''q'' 1, Select [cand_a], Fetch (link result_a) 200, Timing 500],
              res_sources = [evidence_of cand_a ''a.org'' (doc_of ''h1'')]\<rparr>"
    unfolding e by (rule research_env_first)
  have r2: "research (envs_widen 1) ([''q''] @ [''q'' @ '' definition'', ''q'' @ '' authoritative source''])
     (chat_opts Reliability) =
   Returns \<lparr>res_trace = [Search ''q'' 1, Select [cand_a], Search ''q definition'' 1,
              Select [cand_b], Search ''q authoritative source'' 0, Select [],
              Fetch (link result_b) 200, Fetch (link result_a) 200, Timing 500],
            res_sources = [evidence_of cand_b ''b.org'' (doc_of ''h2''),
                           evidence_of cand_a ''a.org'' (doc_of ''h1'')]\<rparr>"
    unfolding e using research_env_second by simp
  have l: "length (res_sources \<lparr>res_trace = [Search ''q'' 1, Select [cand_a],
      Fetch (link result_a) 200, Timing 500],
      res_sources = [evidence_of cand_a ''a.org'' (doc_of ''h1'')]\<rparr>) < 3"
    by simp
  from retrieve_widened_second_pass [OF r1 l r2]
  obtain rt where rt: "retrieve envs_widen Reliability ''q'' [''q''] = Returns rt"
    "rt_calls rt = [[''q''], [''q''] @ [''q'' @ '' definition'', ''q'' @ '' authoritative source'']]"
    "rt_sources rt = hash_union_capped (res_sources \<lparr>res_trace = [Search ''q'' 1, Select [cand_a],
      Fetch (link result_a) 200, Timing 500],
      res_sources = [evidence_of cand_a ''a.org'' (doc_of ''h1'')]\<rparr>)
      (res_sources \<lparr>res_trace = [Search ''q'' 1, Select [cand_a], Search ''q definition'' 1,
              Select [cand_b], Search ''q authoritative source'' 0, Select [],
              Fetch (link result_b) 200, Fetch (link result_a) 200, Timing 500],
            res_sources = [evidence_of cand_b ''b.org'' (doc_of ''h2''),
                           evidence_of cand_a ''a.org'' (doc_of ''h1'')]\<rparr>) 6"
    by blast
  have c: "rt_calls rt = [[''q''], [''q'', ''q definition'', ''q authoritative source'']]"
    using rt(2) by simp
  have s: "rt_sources rt = hash_union_capped [evidence_of cand_a ''a.org'' (doc_of ''h1'')]
          [evidence_of cand_b ''b.org'' (doc_of ''h2''), evidence_of cand_a ''a.org'' (doc_of ''h1'')] 6"
    using rt(3) by simp
  show ?thesis
    using rt(1) c s by (intro exI [of _ rt] conjI)
qed

lemma widened_union_example:
  "hash_union_capped [evidence_of cand_a ''a.org'' (doc_of ''h1'')]
     [evidence_of cand_b ''b.org'' (doc_of ''h2''), evidence_of cand_a ''a.org'' (doc_of ''h1'')] 6 =
   [evidence_of cand_a ''a.org'' (doc_of ''h1''), evidence_of cand_b ''b.org'' (doc_of ''h2'')]"
  unfolding mergeSourcesByHash_union [symmetric]
  by (simp add: mergeSourcesByHash_def contentHash_evidence_of doc_of_fields Let_def)

section \<open>Properties of safeJsonParse\<close>

lemma indexOf_from_range: "indexOf_from i t c = - 1 \<or> int i \<le> indexOf_from i t c"
proof (induction t arbitrary: i)
  case Nil
  then show ?case by simp
next
  case (Cons x xs)
  show ?case using Cons [of "i + 1"] by auto
qed

lemma first_of_two:
  "(let fo = indexOf_from i t a; fa = indexOf_from i t b
    in if fo = - 1 then fa else if fa = - 1 then fo else min fo fa) =
   (if list_ex (\<lambda>c. c = a \<or> c = b) t
    then int (i + length (takeWhile (\<lambda>c. \<not> (c = a \<or> c = b)) t)) else - 1)"
proof (induction t arbitrary: i)
  case Nil
  then show ?case by simp
next
  case (Cons x xs)
  have ra: "indexOf_from (i + 1) xs a = - 1 \<or> int (i + 1) \<le> indexOf_from (i + 1) xs a"
    by (rule indexOf_from_range)
  have rb: "indexOf_from (i + 1) xs b = - 1 \<or> int (i + 1) \<le> indexOf_from (i + 1) xs b"
    by (rule indexOf_from_range)
  show ?case
  proof (cases "x = a \<or> x = b")
    case True
    then show ?thesis using ra rb by (auto simp: Let_def)
  next
    case False
    then show ?thesis using Cons [of "i + 1"] by (simp add: Let_def)
  qed
qed

lemma start_index:
  "(let firstObj = indexOf t CHR ''{''; firstArr = indexOf t CHR ''[''
    in if firstObj = - 1 then firstArr else if firstArr = - 1 then firstObj
       else min firstObj firstArr) =
   (if list_ex is_open t then int (length (takeWhile (\<lambda>c. \<not> is_open c) t)) else - 1)"
proof -
  have o: "is_open = (\<lambda>c. c = CHR ''{'' \<or> c = CHR ''['')"
    by (rule ext) (simp add: is_open_def)
  show ?thesis
    unfolding indexOf_def o using first_of_two [of 0 t "CHR ''{''" "CHR ''[''"] by simp
qed

lemma end_index:
  "max (lastIndexOf t CHR ''}'') (lastIndexOf t CHR '']'') =
   (if list_ex is_close t
    then int (length t) - 1 - int (length (takeWhile (\<lambda>c. \<not> is_close c) (rev t))) else - 1)"
proof -
  have o: "is_close = (\<lambda>c. c = CHR ''}'' \<or> c = CHR '']'')"
    by (rule ext) (simp add: is_close_def)
  let ?ro = "indexOf_from 0 (rev t) CHR ''}''"
  let ?ra = "indexOf_from 0 (rev t) CHR '']''"
  let ?q = "length (takeWhile (\<lambda>c. \<not> is_close c) (rev t))"
  have f: "(if ?ro = - 1 then ?ra else if ?ra = - 1 then ?ro else min ?ro ?ra) =
      (if list_ex is_close t then int ?q else - 1)"
    unfolding o using first_of_two [of 0 "rev t" "CHR ''}''" "CHR '']''"]
    by (simp add: Let_def list_ex_iff)
  have q: "?q \<le> length t"
    using length_takeWhile_le [of "\<lambda>c. \<not> is_close c" "rev t"] by simp
  have ro: "?ro = - 1 \<or> 0 \<le> ?ro" and ra: "?ra = - 1 \<or> 0 \<le> ?ra"
    using indexOf_from_range [of 0 "rev t" "CHR ''}''"]
      indexOf_from_range [of 0 "rev t" "CHR '']''"] by simp_all
  have le: "list_ex is_close t \<Longrightarrow> ?q < length t"
  proof -
    assume "list_ex is_close t"
    then have "\<exists>c \<in> set (rev t). \<not> \<not> is_close c" by (simp add: list_ex_iff)
    then have "takeWhile (\<lambda>c. \<not> is_close c) (rev t) \<noteq> rev t"
      unfolding takeWhile_eq_all_conv by blast
    then have "?q \<noteq> length (rev t)"
      using takeWhile_eq_take [of "\<lambda>c. \<not> is_close c" "rev t"] by auto
    then show ?thesis using q by simp
  qed
  show ?thesis
  proof (cases "list_ex is_close t")
    case True
    then show ?thesis
      using f ro ra le [OF True] by (auto simp: lastIndexOf_def Let_def split: if_splits)
  next
    case False
    then show ?thesis
      using f ro ra by (auto simp: lastIndexOf_def Let_def split: if_splits)
  qed
qed

lemma length_takeWhile_take:
  "length (takeWhile P (take n xs)) = min n (length (takeWhile P xs))"
proof (induction xs arbitrary: n)
  case Nil
  then show ?case by simp
next
  case (Cons x xs)
  then show ?case by (cases n) auto
qed

lemma to_last_close_take:
  "to_last_close u = take (length u - length (takeWhile (\<lambda>c. \<not> is_close c) (rev u))) u"
proof -
  have "dropWhile (\<lambda>c. \<not> is_close c) (rev u) =
      drop (length (takeWhile (\<lambda>c. \<not> is_close c) (rev u))) (rev u)"
    by (rule dropWhile_eq_drop)
  then show ?thesis
    unfolding to_last_close_def by (simp add: rev_drop)
qed

lemma to_last_close_drop:
  "to_last_close (drop p t) =
     take (length t - p - length (takeWhile (\<lambda>c. \<not> is_close c) (rev t))) (drop p t)"
proof -
  have "rev (drop p t) = take (length t - p) (rev t)"
    by (simp add: rev_drop)
  then have "length (takeWhile (\<lambda>c. \<not> is_close c) (rev (drop p t))) =
      min (length t - p) (length (takeWhile (\<lambda>c. \<not> is_close c) (rev t)))"
    by (simp add: length_takeWhile_take)
  then show ?thesis
    unfolding to_last_close_take [of "drop p t"] by (simp add: min_def)
qed

lemma extracted_span:
  assumes "list_ex is_open t"
  defines "p \<equiv> length (takeWhile (\<lambda>c. \<not> is_open c) t)"
  defines "e \<equiv> max (lastIndexOf t CHR ''}'') (lastIndexOf t CHR '']'')"
  shows "(e \<le> int p \<longrightarrow> to_last_close (from_first_open t) = [])
       \<and> (int p < e \<longrightarrow> to_last_close (from_first_open t) = slice t (int p) (e + 1)
                        \<and> slice t (int p) (e + 1) \<noteq> [])"
proof -
  let ?q = "length (takeWhile (\<lambda>c. \<not> is_close c) (rev t))"
  have f: "from_first_open t = drop p t"
    unfolding from_first_open_def p_def by (rule dropWhile_eq_drop)
  have tl: "to_last_close (from_first_open t) = take (length t - p - ?q) (drop p t)"
    unfolding f by (rule to_last_close_drop)
  have "\<exists>c \<in> set t. \<not> \<not> is_open c"
    using assms(1) by (simp add: list_ex_iff)
  then have ne: "takeWhile (\<lambda>c. \<not> is_open c) t \<noteq> t"
    unfolding takeWhile_eq_all_conv by blast
  have "p \<le> length t"
    unfolding p_def by (rule length_takeWhile_le)
  moreover have "p \<noteq> length t"
    using ne takeWhile_eq_take [of "\<lambda>c. \<not> is_open c" t] unfolding p_def by auto
  ultimately have p: "p < length t" by simp
  have op: "is_open (t ! p)"
    using nth_length_takeWhile [of "\<lambda>c. \<not> is_open c" t] p unfolding p_def by simp
  have q: "?q \<le> length t"
    using length_takeWhile_le [of "\<lambda>c. \<not> is_close c" "rev t"] by simp
  show ?thesis
  proof (cases "list_ex is_close t")
    case False
    then have e: "e = - 1"
      unfolding e_def end_index by simp
    have "\<forall>c \<in> set (rev t). \<not> is_close c"
      using False by (simp add: list_ex_iff)
    then have "takeWhile (\<lambda>c. \<not> is_close c) (rev t) = rev t"
      unfolding takeWhile_eq_all_conv by blast
    then have "?q = length (rev t)" by (rule arg_cong)
    then have "?q = length t" by simp
    then show ?thesis using e tl by simp
  next
    case True
    then have e: "e = int (length t) - 1 - int ?q"
      unfolding e_def end_index by simp
    have "\<exists>c \<in> set (rev t). \<not> \<not> is_close c"
      using True by (simp add: list_ex_iff)
    then have "takeWhile (\<lambda>c. \<not> is_close c) (rev t) \<noteq> rev t"
      unfolding takeWhile_eq_all_conv by blast
    then have "?q \<noteq> length (rev t)"
      using takeWhile_eq_take [of "\<lambda>c. \<not> is_close c" "rev t"] by auto
    then have ql: "?q < length t" using q by simp
    have "\<not> \<not> is_close (rev t ! ?q)"
      using nth_length_takeWhile [of "\<lambda>c. \<not> is_close c" "rev t"] ql by simp
    then have cl: "is_close (t ! (length t - 1 - ?q))"
      using ql by (simp add: rev_nth)
    have neq: "length t - 1 - ?q \<noteq> p"
    proof
      assume "length t - 1 - ?q = p"
      then have "is_close (t ! p)" using cl by simp
      then show False using op by (auto simp: is_open_def is_close_def)
    qed
    show ?thesis
    proof (intro conjI impI)
      assume "e \<le> int p"
      then have "length t - p - ?q = 0"
        using e neq ql p by linarith
      then show "to_last_close (from_first_open t) = []"
        using tl by simp
    next
      assume a: "int p < e"
      then have n: "nat (e + 1 - int p) = length t - p - ?q"
        using e ql p by linarith
      show "to_last_close (from_first_open t) = slice t (int p) (e + 1)"
        unfolding tl slice_def n by simp
      have "0 < length t - p - ?q"
        using a e ql p by linarith
      then show "slice t (int p) (e + 1) \<noteq> []"
        unfolding slice_def n using p by simp
    qed
  qed
qed

lemma read_number_one:
  "read_number (CHR ''1'' # CHR '']'' # r) = Some (''1'', CHR '']'' # r)"
  by (simp add: read_number_def read_frac_def read_exp_def is_digit_def Let_def)

lemma read_value_one:
  "read_value (Suc n) (CHR ''1'' # CHR '']'' # r) = Some (JNum ''1'', CHR '']'' # r)"
  by (simp add: skip_ws_def is_json_ws_def read_number_one)

lemma read_elems_one:
  "read_elems (Suc (Suc n)) (CHR ''1'' # CHR '']'' # r) [] = Some (JArr [JNum ''1''], r)"
  by (simp add: read_value_one skip_ws_def is_json_ws_def del: read_value.simps)

lemma read_value_array:
  "read_value (Suc (Suc (Suc n))) (CHR ''['' # CHR ''1'' # CHR '']'' # r) =
     Some (JArr [JNum ''1''], r)"
  by (simp add: read_elems_one skip_ws_def is_json_ws_def del: read_elems.simps)

lemma read_value_letter: "read_value (Suc n) (CHR ''x'' # r) = None"
  by (simp add: skip_ws_def is_json_ws_def read_number_def is_digit_def Let_def)

lemma json_read_examples:
  "json_read ''[1] and [2]'' = None"
  "json_read ''[1]'' = Some (JArr [JNum ''1''])"
  "json_read ''x [1] y'' = None"
proof -
  have f: "Suc (length ''[1] and [2]'') = Suc (Suc (Suc 9))" "Suc (length ''[1]'') = Suc (Suc (Suc 1))"
    by simp_all
  show "json_read ''[1] and [2]'' = None"
    unfolding json_read_def f read_value_array by (simp add: skip_ws_def is_json_ws_def)
  show "json_read ''[1]'' = Some (JArr [JNum ''1''])"
    unfolding json_read_def f read_value_array by (simp add: skip_ws_def)
  show "json_read ''x [1] y'' = None"
    unfolding json_read_def read_value_letter by simp
qed

lemma trim_example: "trim ''[1] and [2]'' = ''[1] and [2]''"
  by code_simp

lemma trim_wrapped: "trim ''x [1] y'' = ''x [1] y''"
  by code_simp

lemma first_balanced_example: "first_balanced ''[1] and [2]'' = Some ''[1]''"
  by (simp add: is_open_def is_close_def closer_of_def)

text \<open>
  C8, as stated, fails: the code does not look for a balanced substring. On the response
  \<open>[1] and [2]\<close> the first balanced substring is \<open>[1]\<close>, which is valid JSON, so the
  parser of the claim returns the array; the code parses the text from the first opening
  bracket to the last closing bracket, here the whole response, and raises, although a
  balanced substring exists.
\<close>

theorem safeJsonParse_not_first_balanced:
  "safeJsonParse json_read ''[1] and [2]'' = Inl SyntaxError
   \<and> first_balanced (trim ''[1] and [2]'') = Some ''[1]''
   \<and> json_read ''[1]'' = Some (JArr [JNum ''1''])
   \<and> safeJsonParse_balanced json_read ''[1] and [2]'' = Inr (JArr [JNum ''1''])"
proof -
  have i: "indexOf ''[1] and [2]'' CHR ''{'' = - 1" "indexOf ''[1] and [2]'' CHR ''['' = 0"
    "lastIndexOf ''[1] and [2]'' CHR ''}'' = - 1" "lastIndexOf ''[1] and [2]'' CHR '']'' = 10"
    by (simp_all add: indexOf_def lastIndexOf_def)
  have s: "slice ''[1] and [2]'' 0 11 = ''[1] and [2]''"
    by (simp add: slice_def)
  have a: "safeJsonParse json_read ''[1] and [2]'' = Inl SyntaxError"
    unfolding safeJsonParse_def trim_example Let_def json_read_examples i
    by (simp add: s json_read_examples)
  have b: "safeJsonParse_balanced json_read ''[1] and [2]'' = Inr (JArr [JNum ''1''])"
    unfolding safeJsonParse_balanced_def trim_example Let_def json_read_examples
      first_balanced_example
    by (simp add: json_read_examples)
  have c: "first_balanced (trim ''[1] and [2]'') = Some ''[1]''"
    unfolding trim_example by (rule first_balanced_example)
  show ?thesis
    using a c json_read_examples(2) b by (intro conjI)
qed

text \<open>
  C8, amended: when the whole trimmed text is not valid JSON, the parser takes the
  substring from the first \<open>{\<close> or \<open>[\<close> of the trimmed text to the last \<open>}\<close> or \<open>]\<close> that follows
  it (brackets are not matched) and parses that. It raises when the text has no opening
  bracket, when no closing bracket follows the first opening bracket, and when that
  substring is not valid JSON; otherwise it returns the value of the substring.
\<close>

theorem safeJsonParse_first_open_to_last_close:
  "safeJsonParse JSON_parse txt =
     (case JSON_parse (trim txt) of
        Some v \<Rightarrow> Inr v
      | None \<Rightarrow>
          if \<not> list_ex is_open (trim txt) then Inl (Error ''Model did not return JSON.'')
          else if to_last_close (from_first_open (trim txt)) = []
          then Inl (Error ''Model returned malformed JSON.'')
          else (case JSON_parse (to_last_close (from_first_open (trim txt))) of
                  Some v \<Rightarrow> Inr v
                | None \<Rightarrow> Inl SyntaxError))"
proof (cases "JSON_parse (trim txt)")
  case (Some v)
  then show ?thesis by (simp add: safeJsonParse_def)
next
  case None
  let ?t = "trim txt"
  let ?p = "length (takeWhile (\<lambda>c. \<not> is_open c) ?t)"
  let ?e = "max (lastIndexOf ?t CHR ''}'') (lastIndexOf ?t CHR '']'')"
  have unf: "safeJsonParse JSON_parse txt =
      (let start = (let firstObj = indexOf ?t CHR ''{''; firstArr = indexOf ?t CHR ''[''
                    in if firstObj = - 1 then firstArr else if firstArr = - 1 then firstObj
                       else min firstObj firstArr)
       in if start = - 1 then Inl (Error ''Model did not return JSON.'')
          else if ?e \<le> start then Inl (Error ''Model returned malformed JSON.'')
          else (case JSON_parse (slice ?t start (?e + 1)) of
                  Some v \<Rightarrow> Inr v
                | None \<Rightarrow> Inl SyntaxError))"
    using None by (simp add: safeJsonParse_def Let_def)
  show ?thesis
  proof (cases "list_ex is_open ?t")
    case False
    then show ?thesis
      unfolding unf start_index using None by simp
  next
    case True
    have st: "(if list_ex is_open ?t then int ?p else - 1) = int ?p"
      using True by simp
    have unf2: "safeJsonParse JSON_parse txt =
        (if ?e \<le> int ?p then Inl (Error ''Model returned malformed JSON.'')
         else (case JSON_parse (slice ?t (int ?p) (?e + 1)) of
                 Some v \<Rightarrow> Inr v
               | None \<Rightarrow> Inl SyntaxError))"
      unfolding unf start_index st by (simp add: Let_def)
    have rhs: "(case JSON_parse ?t of
        Some v \<Rightarrow> Inr v
      | None \<Rightarrow>
          if \<not> list_ex is_open ?t then Inl (Error ''Model did not return JSON.'')
          else if to_last_close (from_first_open ?t) = []
          then Inl (Error ''Model returned malformed JSON.'')
          else (case JSON_parse (to_last_close (from_first_open ?t)) of
                  Some v \<Rightarrow> Inr v
                | None \<Rightarrow> Inl SyntaxError)) =
       (if to_last_close (from_first_open ?t) = []
          then Inl (Error ''Model returned malformed JSON.'')
          else (case JSON_parse (to_last_close (from_first_open ?t)) of
                  Some v \<Rightarrow> Inr v
                | None \<Rightarrow> Inl SyntaxError))"
      using None True by simp
    from extracted_span [OF True]
    have sp: "?e \<le> int ?p \<longrightarrow> to_last_close (from_first_open ?t) = []"
      "int ?p < ?e \<longrightarrow> to_last_close (from_first_open ?t) = slice ?t (int ?p) (?e + 1)
                        \<and> slice ?t (int ?p) (?e + 1) \<noteq> []"
      by blast+
    show ?thesis
    proof (cases "?e \<le> int ?p")
      case le: True
      have "to_last_close (from_first_open ?t) = []"
        using sp(1) le by (rule mp)
      then have e: "(to_last_close (from_first_open ?t) = []) = True" by simp
      show ?thesis
        unfolding unf2 e if_P [OF le] if_True using None True by simp
    next
      case gt: False
      then have lt: "int ?p < ?e" by linarith
      have both: "to_last_close (from_first_open ?t) = slice ?t (int ?p) (?e + 1)
          \<and> slice ?t (int ?p) (?e + 1) \<noteq> []"
        using sp(2) lt by (rule mp)
      have ne: "to_last_close (from_first_open ?t) \<noteq> []"
        using both by simp
      have eq: "slice ?t (int ?p) (?e + 1) = to_last_close (from_first_open ?t)"
        using both by simp
      show ?thesis
        unfolding unf2 eq if_not_P [OF gt] if_not_P [OF ne] using None True by simp
    qed
  qed
qed

text \<open>A response wrapped in prose, read through its bracketed part.\<close>

lemma safeJsonParse_wrapped:
  "safeJsonParse json_read ''x [1] y'' = Inr (JArr [JNum ''1''])"
proof -
  have i: "indexOf ''x [1] y'' CHR ''{'' = - 1" "indexOf ''x [1] y'' CHR ''['' = 2"
    "lastIndexOf ''x [1] y'' CHR ''}'' = - 1" "lastIndexOf ''x [1] y'' CHR '']'' = 4"
    by (simp_all add: indexOf_def lastIndexOf_def)
  have s: "slice ''x [1] y'' 2 5 = ''[1]''"
    by (simp add: slice_def)
  show ?thesis
    unfolding safeJsonParse_def trim_wrapped Let_def json_read_examples i
    by (simp add: s json_read_examples)
qed

section \<open>Properties of planQuery\<close>

lemma fallback_plan_intents:
  "fallback_plan userQuestion =
     \<lparr>intents = [trim userQuestion, trim userQuestion @ '' primary source'',
                 trim userQuestion @ '' overview''],
      must_include = [],
      time_sensitivity = TS_none\<rparr>"
  by (simp add: fallback_plan_def slice_to_def Let_def)

lemma planQuery_fallback:
  "planQuery_try llm JSON_parse userQuestion = Inl e \<Longrightarrow>
     planQuery llm JSON_parse userQuestion = Inr (fallback_plan userQuestion)"
  by (simp add: planQuery_def)

lemma trim_padded: "trim '' a'' = ''a''" "trim ''x'' = ''x''" "trim ''[1]'' = ''[1]''"
  by code_simp+

lemma safeJsonParse_no_bracket:
  "safeJsonParse json_read ''x'' = Inl (Error ''Model did not return JSON.'')"
proof -
  have r: "json_read ''x'' = None"
    unfolding json_read_def read_value_letter by simp
  have i: "indexOf ''x'' CHR ''{'' = - 1" "indexOf ''x'' CHR ''['' = - 1"
    by (simp_all add: indexOf_def)
  show ?thesis
    unfolding safeJsonParse_def trim_padded Let_def r i by simp
qed

lemma safeJsonParse_array:
  "safeJsonParse json_read ''[1]'' = Inr (JArr [JNum ''1''])"
  unfolding safeJsonParse_def trim_padded Let_def json_read_examples by simp

text \<open>
  C3, as stated, fails for a question with surrounding whitespace: the fallback is built
  from the trimmed question. With a generation capability that always fails and the
  non-empty question \<open>" a"\<close>, the intents are \<open>a\<close>, \<open>a primary source\<close> and \<open>a overview\<close>, not
  \<open>" a"\<close>, \<open>" a primary source"\<close> and \<open>" a overview"\<close>.
\<close>

theorem planQuery_fallback_trims_question:
  "planQuery (\<lambda>m t. Inl (Error ''down'')) json_read '' a'' =
     Inr \<lparr>intents = [''a'', ''a primary source'', ''a overview''],
          must_include = [], time_sensitivity = TS_none\<rparr>
   \<and> planQuery (\<lambda>m t. Inl (Error ''down'')) json_read '' a'' \<noteq> Inr (fallback_as_asked '' a'')
   \<and> '' a'' \<noteq> []"
proof -
  have t: "planQuery_try (\<lambda>m t. Inl (Error ''down'')) json_read '' a'' = Inl (Error ''down'')"
    by (simp add: planQuery_try_def chat_json_def)
  have p: "planQuery (\<lambda>m t. Inl (Error ''down'')) json_read '' a'' =
     Inr \<lparr>intents = [''a'', ''a primary source'', ''a overview''],
          must_include = [], time_sensitivity = TS_none\<rparr>"
    unfolding planQuery_fallback [OF t] fallback_plan_intents trim_padded by simp
  show ?thesis
    unfolding p by (simp add: fallback_as_asked_def)
qed

text \<open>
  C3, amended: for every user question, planQuery never raises (it returns a plan for
  every generation capability); whenever the generation capability fails (a timeout is
  such a failure: the provider throws), returns text from which no JSON can be read, or
  returns JSON violating the Plan schema, it returns exactly the deterministic fallback
  plan with the 3 intents \<open>[q, "<q> primary source", "<q> overview"]\<close>, where \<open>q\<close> is the
  question with its leading and trailing whitespace removed, \<open>must_include = []\<close> and
  \<open>time_sensitivity = "none"\<close>.
\<close>

theorem planQuery_never_raises_fallback:
  "(\<exists>p. planQuery llm JSON_parse userQuestion = Inr p)
   \<and> ((\<exists>e. llm (\<lparr>role = System, content = jsonOnlySystemPrompt plan_instruction\<rparr>
                   # plan_messages userQuestion) (2 / 10) = Inl e)
        \<or> (\<exists>txt e. llm (\<lparr>role = System, content = jsonOnlySystemPrompt plan_instruction\<rparr>
                   # plan_messages userQuestion) (2 / 10) = Inr txt
               \<and> safeJsonParse JSON_parse txt = Inl e)
        \<or> (\<exists>txt raw e. llm (\<lparr>role = System, content = jsonOnlySystemPrompt plan_instruction\<rparr>
                   # plan_messages userQuestion) (2 / 10) = Inr txt
               \<and> safeJsonParse JSON_parse txt = Inr raw \<and> PlanSchema_parse raw = Inl e)
      \<longrightarrow> planQuery llm JSON_parse userQuestion =
            Inr \<lparr>intents = [trim userQuestion, trim userQuestion @ '' primary source'',
                            trim userQuestion @ '' overview''],
                 must_include = [], time_sensitivity = TS_none\<rparr>)"
proof (intro conjI impI)
  show "\<exists>p. planQuery llm JSON_parse userQuestion = Inr p"
    by (cases "planQuery_try llm JSON_parse userQuestion") (simp_all add: planQuery_def)
next
  assume a: "(\<exists>e. llm (\<lparr>role = System, content = jsonOnlySystemPrompt plan_instruction\<rparr>
                   # plan_messages userQuestion) (2 / 10) = Inl e)
        \<or> (\<exists>txt e. llm (\<lparr>role = System, content = jsonOnlySystemPrompt plan_instruction\<rparr>
                   # plan_messages userQuestion) (2 / 10) = Inr txt
               \<and> safeJsonParse JSON_parse txt = Inl e)
        \<or> (\<exists>txt raw e. llm (\<lparr>role = System, content = jsonOnlySystemPrompt plan_instruction\<rparr>
                   # plan_messages userQuestion) (2 / 10) = Inr txt
               \<and> safeJsonParse JSON_parse txt = Inr raw \<and> PlanSchema_parse raw = Inl e)"
  have "\<exists>e. planQuery_try llm JSON_parse userQuestion = Inl e"
    using a by (auto simp: planQuery_try_def chat_json_def)
  then obtain e where "planQuery_try llm JSON_parse userQuestion = Inl e" ..
  then have "planQuery llm JSON_parse userQuestion = Inr (fallback_plan userQuestion)"
    by (rule planQuery_fallback)
  then show "planQuery llm JSON_parse userQuestion =
            Inr \<lparr>intents = [trim userQuestion, trim userQuestion @ '' primary source'',
                            trim userQuestion @ '' overview''],
                 must_include = [], time_sensitivity = TS_none\<rparr>"
    unfolding fallback_plan_intents .
qed

theorem planQuery_never_raises_fallback_witness:
  "planQuery (\<lambda>m t. Inl (Error ''down'')) json_read '' a'' =
     Inr \<lparr>intents = [''a'', ''a primary source'', ''a overview''],
          must_include = [], time_sensitivity = TS_none\<rparr>
   \<and> planQuery (\<lambda>m t. Inr ''x'') json_read '' a'' =
     Inr \<lparr>intents = [''a'', ''a primary source'', ''a overview''],
          must_include = [], time_sensitivity = TS_none\<rparr>
   \<and> planQuery (\<lambda>m t. Inr ''[1]'') json_read '' a'' =
     Inr \<lparr>intents = [''a'', ''a primary source'', ''a overview''],
          must_include = [], time_sensitivity = TS_none\<rparr>"
proof -
  have z: "PlanSchema_parse (JArr [JNum ''1'']) = Inl ZodError"
    by (simp add: PlanSchema_parse_def)
  have c1: "planQuery (\<lambda>m t. Inl (Error ''down'')) json_read '' a'' =
     Inr \<lparr>intents = [''a'', ''a primary source'', ''a overview''],
          must_include = [], time_sensitivity = TS_none\<rparr>"
    using planQuery_never_raises_fallback [of "\<lambda>m t. Inl (Error ''down'')" json_read "'' a''"]
    unfolding trim_padded by simp
  have c2: "planQuery (\<lambda>m t. Inr ''x'') json_read '' a'' =
     Inr \<lparr>intents = [''a'', ''a primary source'', ''a overview''],
          must_include = [], time_sensitivity = TS_none\<rparr>"
    using planQuery_never_raises_fallback [of "\<lambda>m t. Inr ''x''" json_read "'' a''"]
    unfolding trim_padded by (simp add: safeJsonParse_no_bracket)
  have c3: "planQuery (\<lambda>m t. Inr ''[1]'') json_read '' a'' =
     Inr \<lparr>intents = [''a'', ''a primary source'', ''a overview''],
          must_include = [], time_sensitivity = TS_none\<rparr>"
    using planQuery_never_raises_fallback [of "\<lambda>m t. Inr ''[1]''" json_read "'' a''"]
    unfolding trim_padded by (simp add: safeJsonParse_array z)
  show ?thesis
    using c1 c2 c3 by (intro conjI)
qed

section \<open>Properties of the cache-hit branch\<close>







text \<open>
  Where the live entry comes from: a request that misses the cache and is answered
  stores its artifact, with the final text as \<open>finalAnswer\<close>, under the key of its mode and
  question for two hours.
\<close>

lemma cache_miss_stores:
  assumes "planQuery (llmFast world) (JSON_parse_of world) (message req) = Inr plan"
    and "retrieve (envs world) (mode req) (message req) (intents plan) = Returns rt"
    and "answer world (mode req) (message req) (rt_sources rt) = Inr a"
    and "cache_miss world req sent mem ck = Returns h"
  shows "\<exists>artifact. mem_after h ck =
           Some \<lparr>cv_value = encode world artifact, expiresAt = now_set world + 7200000\<rparr>
         \<and> finalAnswer artifact = ans_finalText a"
  using assms by (auto simp: cache_miss_def Let_def cacheSet_def)

end
